theory Spec2Isabelle
  imports Main "HOL-Library.Sublist" "HOL-Library.Multiset"
begin

section \<open>Regular expressions as the scripts use them\<close>

text \<open>
  The scripts rely on Python's \<open>re\<close> module: a backtracking matcher that tries the
  alternatives of a pattern in a fixed priority order (greedy quantifiers prefer the
  longest repetition, lazy ones the shortest, alternatives go left to right) and reports
  the first success. Every pattern of the repository is a sequence of single-character
  atoms under a quantifier, the anchors \<open>^\<close> and \<open>\b\<close>, and unnested capturing groups
  that hold one or more alternative sequences. The matcher below computes the list of
  all successful continuations in Python's priority order; the head of this list is the
  match Python reports.

  Text is modelled as a list of characters with code points below 256. On that range
  the classes are Python's: \<open>\s\<close> and \<open>str.strip\<close> take \<open>str.isspace\<close> (the ASCII
  controls 9 to 13 and 28 to 31, the blank, U+0085 and U+00A0), \<open>\w\<close> takes
  \<open>str.isalnum\<close> (ASCII letters and digits, and the letters, superscript digits and
  fractions of Latin-1) and the underscore, \<open>\d\<close> takes the digits 0 to 9.
\<close>

definition is_space :: "char \<Rightarrow> bool" where
  "is_space c = (let n = (of_char c :: nat) in
     (9 \<le> n \<and> n \<le> 13) \<or> (28 \<le> n \<and> n \<le> 32) \<or> n = 133 \<or> n = 160)"

definition is_digit :: "char \<Rightarrow> bool" where
  "is_digit c = (let n = (of_char c :: nat) in 48 \<le> n \<and> n \<le> 57)"

definition isalnum :: "char \<Rightarrow> bool" where
  "isalnum c = (let n = (of_char c :: nat) in
     (48 \<le> n \<and> n \<le> 57) \<or> (65 \<le> n \<and> n \<le> 90) \<or> (97 \<le> n \<and> n \<le> 122)
     \<or> n = 170 \<or> (178 \<le> n \<and> n \<le> 179) \<or> n = 181 \<or> (185 \<le> n \<and> n \<le> 186)
     \<or> (188 \<le> n \<and> n \<le> 190) \<or> (192 \<le> n \<and> n \<le> 214) \<or> (216 \<le> n \<and> n \<le> 246)
     \<or> (248 \<le> n \<and> n \<le> 255))"

definition is_word :: "char \<Rightarrow> bool" where
  "is_word c = (isalnum c \<or> c = CHR ''_'')"

datatype cls =
    Ch char             \<comment> \<open>a literal character\<close>
  | Ws                  \<comment> \<open>\<open>\s\<close>\<close>
  | Wd                  \<comment> \<open>\<open>\w\<close>\<close>
  | Dg                  \<comment> \<open>\<open>\d\<close>\<close>
  | Dot                 \<comment> \<open>\<open>.\<close>: anything but a newline\<close>
  | OneOf "char list"   \<comment> \<open>\<open>[...]\<close>\<close>
  | NoneOf "char list"  \<comment> \<open>\<open>[^...]\<close>\<close>

fun cls_ok :: "cls \<Rightarrow> char \<Rightarrow> bool" where
  "cls_ok (Ch d) c = (c = d)"
| "cls_ok Ws c = is_space c"
| "cls_ok Wd c = is_word c"
| "cls_ok Dg c = is_digit c"
| "cls_ok Dot c = (c \<noteq> CHR 0x0A)"
| "cls_ok (OneOf cs) c = (c \<in> set cs)"
| "cls_ok (NoneOf cs) c = (c \<notin> set cs)"

datatype atom =
    One cls        \<comment> \<open>\<open>x\<close>\<close>
  | Opt cls        \<comment> \<open>\<open>x?\<close>\<close>
  | Star cls       \<comment> \<open>\<open>x*\<close>\<close>
  | Plus cls       \<comment> \<open>\<open>x+\<close>\<close>
  | LazyStar cls   \<comment> \<open>\<open>x*?\<close>\<close>
  | LazyPlus cls   \<comment> \<open>\<open>x+?\<close>\<close>
  | Bnd            \<comment> \<open>\<open>\b\<close>\<close>
  | Bol            \<comment> \<open>\<open>^\<close> (no MULTILINE flag anywhere in the repository)\<close>

text \<open>A matcher position: the character just consumed (if any) and the text ahead.\<close>

type_synonym pos = "char option \<times> string"

fun star_greedy :: "cls \<Rightarrow> pos \<Rightarrow> pos list" where
  "star_greedy c (p, []) = [(p, [])]"
| "star_greedy c (p, x # xs) =
     (if cls_ok c x then star_greedy c (Some x, xs) else []) @ [(p, x # xs)]"

fun star_lazy :: "cls \<Rightarrow> pos \<Rightarrow> pos list" where
  "star_lazy c (p, []) = [(p, [])]"
| "star_lazy c (p, x # xs) =
     (p, x # xs) # (if cls_ok c x then star_lazy c (Some x, xs) else [])"

definition word_before :: "pos \<Rightarrow> bool" where
  "word_before st = (case fst st of None \<Rightarrow> False | Some c \<Rightarrow> is_word c)"

definition word_ahead :: "pos \<Rightarrow> bool" where
  "word_ahead st = (case snd st of [] \<Rightarrow> False | c # _ \<Rightarrow> is_word c)"

fun m_atom :: "atom \<Rightarrow> pos \<Rightarrow> pos list" where
  "m_atom (One c) (p, []) = []"
| "m_atom (One c) (p, x # xs) = (if cls_ok c x then [(Some x, xs)] else [])"
| "m_atom (Opt c) (p, []) = [(p, [])]"
| "m_atom (Opt c) (p, x # xs) = (if cls_ok c x then [(Some x, xs)] else []) @ [(p, x # xs)]"
| "m_atom (Star c) st = star_greedy c st"
| "m_atom (Plus c) (p, []) = []"
| "m_atom (Plus c) (p, x # xs) = (if cls_ok c x then star_greedy c (Some x, xs) else [])"
| "m_atom (LazyStar c) st = star_lazy c st"
| "m_atom (LazyPlus c) (p, []) = []"
| "m_atom (LazyPlus c) (p, x # xs) = (if cls_ok c x then star_lazy c (Some x, xs) else [])"
| "m_atom Bnd st = (if word_before st \<noteq> word_ahead st then [st] else [])"
| "m_atom Bol st = (if fst st = None then [st] else [])"

fun m_seq :: "atom list \<Rightarrow> pos \<Rightarrow> pos list" where
  "m_seq [] st = [st]"
| "m_seq (a # as) st = concat (map (m_seq as) (m_atom a st))"

text \<open>
  An item of a pattern is an atom or a capturing group \<open>(alt1|alt2|...)\<close>; groups are
  numbered by their order in the pattern, as Python numbers them when none is nested.
\<close>

datatype item = A atom | G "atom list list"

type_synonym regex = "item list"

definition m_alts :: "atom list list \<Rightarrow> pos \<Rightarrow> pos list" where
  "m_alts alts st = concat (map (\<lambda>alt. m_seq alt st) alts)"

definition consumed :: "pos \<Rightarrow> pos \<Rightarrow> string" where
  "consumed st st' = take (length (snd st) - length (snd st')) (snd st)"

fun m_items :: "regex \<Rightarrow> string list \<Rightarrow> pos \<Rightarrow> (string list \<times> pos) list" where
  "m_items [] caps st = [(caps, st)]"
| "m_items (A a # is) caps st = concat (map (m_items is caps) (m_atom a st))"
| "m_items (G alts # is) caps st =
     concat (map (\<lambda>st'. m_items is (caps @ [consumed st st']) st') (m_alts alts st))"

text \<open>The match Python finds when it tries the pattern at one position.\<close>

definition match_at :: "regex \<Rightarrow> pos \<Rightarrow> (string list \<times> pos) option" where
  "match_at r st = (case m_items r [] st of [] \<Rightarrow> None | m # _ \<Rightarrow> Some m)"

text \<open>\<open>pattern.search\<close>: the leftmost position with a match.\<close>

fun search_from :: "regex \<Rightarrow> char option \<Rightarrow> string \<Rightarrow> bool" where
  "search_from r p [] = (match_at r (p, []) \<noteq> None)"
| "search_from r p (x # xs) = (match_at r (p, x # xs) \<noteq> None \<or> search_from r (Some x) xs)"

definition search :: "regex \<Rightarrow> string \<Rightarrow> bool" where
  "search r s = search_from r None s"

text \<open>Replacement templates: literal text and group references \<open>\1\<close>, \<open>\2\<close>, ...\<close>

datatype tpart = T string | B nat

fun expand :: "tpart list \<Rightarrow> string list \<Rightarrow> string" where
  "expand [] caps = []"
| "expand (T s # ts) caps = s @ expand ts caps"
| "expand (B n # ts) caps = (if 0 < n \<and> n \<le> length caps then caps ! (n - 1) else []) @ expand ts caps"

text \<open>
  \<open>re.subn\<close>: scan left to right, replace each match and continue behind it; where
  nothing matches copy one character. The result is the new text and the number of
  replacements. (An empty match is replaced and the scan moves on by one character; no
  pattern of the repository can match the empty string.)
\<close>

function subn_from :: "regex \<Rightarrow> tpart list \<Rightarrow> char option \<Rightarrow> string \<Rightarrow> string \<times> nat" where
  "subn_from r t p s =
     (case match_at r (p, s) of
        Some (caps, (p', s')) \<Rightarrow>
          (if length s' < length s then
             (let (out, n) = subn_from r t p' s' in (expand t caps @ out, Suc n))
           else (case s of
                   [] \<Rightarrow> (expand t caps, Suc 0)
                 | x # xs \<Rightarrow> (let (out, n) = subn_from r t (Some x) xs
                              in (expand t caps @ x # out, Suc n))))
      | None \<Rightarrow>
          (case s of
             [] \<Rightarrow> ([], 0)
           | x # xs \<Rightarrow> (let (out, n) = subn_from r t (Some x) xs in (x # out, n))))"
  by pat_completeness auto
termination
  by (relation "measure (\<lambda>(r, t, p, s). length s)") auto

declare subn_from.simps [simp del]

definition subn :: "regex \<Rightarrow> tpart list \<Rightarrow> string \<Rightarrow> string \<times> nat" where
  "subn r t s = subn_from r t None s"

definition sub :: "regex \<Rightarrow> tpart list \<Rightarrow> string \<Rightarrow> string" where
  "sub r t s = fst (subn r t s)"

definition lit :: "string \<Rightarrow> atom list" where
  "lit s = map (\<lambda>c. One (Ch c)) s"

definition L :: "string \<Rightarrow> item list" where
  "L s = map A (lit s)"

section \<open>The declaration-pattern rewriter (scripts/fix\_all\_unused\_vars.py)\<close>

text \<open>
  The nine pattern/replacement pairs of \<open>fix_unused_vars\<close>, in the order of the source;
  \<open>re.escape(variable)\<close> makes the flagged name a literal.
\<close>

definition patterns :: "string \<Rightarrow> (regex \<times> tpart list) list" where
  "patterns v =
    [ \<comment> \<open>Regular variable declarations\<close>
      ([G [lit ''const'', lit ''let'', lit ''var''], A (Plus Ws), G [lit v],
        G [[Star Ws, One (OneOf '':='')],
           Plus Ws # lit ''in'' @ [Plus Ws],
           Plus Ws # lit ''of'' @ [Plus Ws]]],
       [B 1, T '' _'', B 2, B 3]),
      \<comment> \<open>Function parameters\<close>
      ([G [lit ''('', [One (Ch CHR '',''), Star Ws]], G [lit v],
        G [[Star Ws, One (OneOf '':),'')]]],
       [B 1, T ''_'', B 2, B 3]),
      \<comment> \<open>Destructuring assignments\<close>
      ([G [[One (Ch CHR ''{''), LazyStar (NoneOf ''}'')]], G [lit v],
        G [[Star Ws, One (OneOf '',}'')]]],
       [B 1, T ''_'', B 2, B 3]),
      \<comment> \<open>Function declarations\<close>
      ([G [lit ''function'' @ [Plus Ws]], G [lit v], G [[Star Ws, One (Ch CHR ''('')]]],
       [B 1, T ''_'', B 2, B 3]),
      \<comment> \<open>Import statements\<close>
      ([G [lit ''import'' @ [Plus Ws, One (Ch CHR ''{''), LazyStar (NoneOf ''}'')]], G [lit v],
        G [[Star Ws, One (OneOf '',}'')]]],
       [B 1, T ''_'', B 2, B 3]),
      ([G [lit ''import'' @ [Plus Ws]], G [lit v], G [Plus Ws # lit ''from'']],
       [B 1, T ''_'', B 2, B 3]),
      \<comment> \<open>Class properties\<close>
      ([G [lit ''private'', lit ''protected'', lit ''public''], A (Plus Ws), G [lit v],
        G [[Star Ws, One (OneOf '':='')]]],
       [B 1, T '' _'', B 2, B 3]),
      \<comment> \<open>Arrow function parameters\<close>
      ([G [[One (Ch CHR ''(''), Star Ws]], G [lit v],
        G [[Star Ws, One (Ch CHR '')''), Star Ws] @ lit ''=>'']],
       [B 1, T ''_'', B 2, B 3]),
      \<comment> \<open>Method parameters\<close>
      ([G [lit ''method('' @ [LazyStar (NoneOf '')'')]], G [lit v],
        G [[Star Ws, One (OneOf '',)'')]]],
       [B 1, T ''_'', B 2, B 3]) ]"

text \<open>The \<open>for pattern, replacement in patterns\<close> loop: every pattern is substituted in turn.\<close>

definition apply_patterns :: "(regex \<times> tpart list) list \<Rightarrow> string \<Rightarrow> string" where
  "apply_patterns ps content = foldl (\<lambda>c (r, t). sub r t c) content ps"

text \<open>One iteration of \<open>for variable in variables\<close>, on the running \<open>modified_content\<close>.\<close>

definition fix_variable :: "string \<Rightarrow> string \<Rightarrow> string" where
  "fix_variable variable modified_content =
     (if sublist (CHR ''_'' # variable) modified_content then modified_content
      else apply_patterns (patterns variable) modified_content)"

text \<open>
  The body of \<open>fix_unused_vars\<close> for one file: the text the file holds afterwards (it is
  written back exactly when it differs from what was read).
\<close>

definition fix_unused_vars_file :: "string list \<Rightarrow> string \<Rightarrow> string" where
  "fix_unused_vars_file variables content = foldl (\<lambda>c v. fix_variable v c) content variables"

section \<open>The ``any''-type rewriters\<close>

subsection \<open>scripts/fix\_eslint\_issues.py: \<open>fix_no_explicit_any\<close>\<close>

definition ch :: "char \<Rightarrow> item" where
  "ch x = A (One (Ch x))"

definition ws0 :: item where
  "ws0 = A (Star Ws)"

definition ws1 :: item where
  "ws1 = A (Plus Ws)"

text \<open>The list \<open>replacements\<close> of the source, in its order.\<close>

definition replacements :: "(regex \<times> tpart list) list" where
  "replacements =
    [ \<comment> \<open>Function parameters and return types\<close>
      ([ch CHR ''('', G [[Plus Wd]], ws0, ch CHR '':'', ws0] @ L ''any)'',
       [T ''('', B 1, T '': unknown)'']),
      ([ch CHR ''('', G [[Plus Wd]], ws0, ch CHR '':'', ws0] @ L ''any[])'',
       [T ''('', B 1, T '': unknown[])'']),
      ([ch CHR '')'', ws0, ch CHR '':'', ws0] @ L ''any'' @ [ws0, ch CHR ''{''],
       [T ''): unknown {'']),
      ([ch CHR '')'', ws0, ch CHR '':'', ws0] @ L ''any[]'' @ [ws0, ch CHR ''{''],
       [T ''): unknown[] {'']),
      \<comment> \<open>Variable declarations\<close>
      ([G [lit ''const'', lit ''let'', lit ''var''], ws1, G [[Plus Wd]], ws0, ch CHR '':'', ws0]
         @ L ''any'' @ [ws0, ch CHR ''=''],
       [B 1, T '' '', B 2, T '': unknown ='']),
      ([G [lit ''const'', lit ''let'', lit ''var''], ws1, G [[Plus Wd]], ws0, ch CHR '':'', ws0]
         @ L ''any[]'' @ [ws0, ch CHR ''=''],
       [B 1, T '' '', B 2, T '': unknown[] ='']),
      \<comment> \<open>Interface and type properties\<close>
      ([G [[Plus Wd]], A (Opt (Ch CHR ''?'')), ch CHR '':'', ws0] @ L ''any;'',
       [B 1, T ''?: unknown;'']),
      ([G [[Plus Wd]], A (Opt (Ch CHR ''?'')), ch CHR '':'', ws0] @ L ''any[];'',
       [B 1, T ''?: unknown[];'']),
      \<comment> \<open>Generic types\<close>
      (L ''<any>'', [T ''<unknown>'']),
      (L ''<any[]>'', [T ''<unknown[]>'']),
      \<comment> \<open>Record types for objects\<close>
      (L ''Record<string,'' @ [ws0] @ L ''any>'', [T ''Record<string, unknown>'']),
      (L ''Record<number,'' @ [ws0] @ L ''any>'', [T ''Record<number, unknown>'']),
      \<comment> \<open>Function parameters that accept multiple types\<close>
      ([G [[Plus Wd, Opt (Ch CHR ''?''), One (Ch CHR '':''), Star Ws]]] @ L ''any''
         @ [G [[Star Ws, One (Ch CHR '','')]]],
       [B 1, T ''unknown'', B 2]),
      \<comment> \<open>Special case for context objects\<close>
      (L ''context'' @ [A (Opt (Ch CHR ''?'')), ch CHR '':'', ws0] @ L ''any'',
       [T ''context?: Record<string, unknown>'']),
      (L ''options'' @ [A (Opt (Ch CHR ''?'')), ch CHR '':'', ws0] @ L ''any'',
       [T ''options?: Record<string, unknown>'']),
      (L ''data'' @ [A (Opt (Ch CHR ''?'')), ch CHR '':'', ws0] @ L ''any'',
       [T ''data?: Record<string, unknown>'']),
      (L ''hash'' @ [A (Opt (Ch CHR ''?'')), ch CHR '':'', ws0] @ L ''any'',
       [T ''hash?: Record<string, unknown>'']) ]"

text \<open>
  The loop \<open>for pattern, replacement in replacements\<close>: \<open>re.subn\<close> on the running text,
  the counts added up.
\<close>

definition apply_replacements :: "(regex \<times> tpart list) list \<Rightarrow> string \<times> nat \<Rightarrow> string \<times> nat" where
  "apply_replacements rs start =
     foldl (\<lambda>(fixed_content, fixes) (r, t).
              (fst (subn r t fixed_content), fixes + snd (subn r t fixed_content))) start rs"

text \<open>
  \<open>fix_no_explicit_any\<close> on the text of one file: the text the file holds afterwards (it is
  written only when \<open>fixes > 0\<close>) and the returned number of fixes.
\<close>

definition fix_no_explicit_any :: "string \<Rightarrow> string \<times> nat" where
  "fix_no_explicit_any content =
     (let (fixed_content, fixes) = apply_replacements replacements (content, 0)
      in (if fixes > 0 then fixed_content else content, fixes))"

subsection \<open>scripts/fix\_any\_types.py: \<open>fix_any_types\<close>\<close>

text \<open>
  Each block of the source is \<open>if pattern.search(text): text = pattern.sub(...); file_modified = True\<close>.
\<close>

definition search_sub :: "string \<times> bool \<Rightarrow> regex \<times> tpart list \<Rightarrow> string \<times> bool" where
  "search_sub st rt =
     (case (st, rt) of ((modified_content, file_modified), (r, t)) \<Rightarrow>
        if search r modified_content then (sub r t modified_content, True)
        else (modified_content, file_modified))"

definition any_patterns :: "(regex \<times> tpart list) list" where
  "any_patterns =
    [ (L ''Record<string,'' @ [ws0] @ L ''any>'', [T ''Record<string, unknown>'']),
      (L ''Record<string,'' @ [ws0] @ L ''any[]>'', [T ''Record<string, unknown[]>'']),
      (L ''any[]'', [T ''unknown[]'']),
      (L ''Array<any>'', [T ''Array<unknown>'']),
      (L ''Promise<any>'', [T ''Promise<unknown>'']),
      ([ch CHR '':'', ws0] @ L ''any'' @ [A Bnd], [T '': unknown'']),
      (L ''<any>'', [T ''<unknown>'']),
      (L ''as'' @ [ws1] @ L ''any'' @ [A Bnd], [T ''as unknown'']) ]"

text \<open>
  The body of the file loop of \<open>fix_any_types\<close>: the text the file holds afterwards and
  whether it was written (\<open>file_modified\<close>).
\<close>

definition fix_any_types_file :: "string \<Rightarrow> string \<times> bool" where
  "fix_any_types_file content = foldl search_sub (content, False) any_patterns"

section \<open>The location-pattern rewriter (scripts/fix\_eslint\_issues.py: \<open>fix_unused_vars\<close>)\<close>

text \<open>
  Python indexing \<open>line[i]\<close>: a negative index counts from the end. Every index the
  rewriter reads lies within \<open>-len(line) \<le> i < len(line)\<close>, by the guards in front of it.
\<close>

definition py_index :: "string \<Rightarrow> int \<Rightarrow> char" where
  "py_index line i = (if i < 0 then line ! nat (int (length line) + i) else line ! nat i)"

text \<open>Python slicing \<open>line[i:j]\<close> for \<open>0 \<le> i \<le> j\<close>.\<close>

definition py_slice :: "string \<Rightarrow> int \<Rightarrow> int \<Rightarrow> string" where
  "py_slice line i j = take (nat j - nat i) (drop (nat i) line)"

text \<open>
  The test of lines 182 to 186. Python reads \<open>a and b or c\<close> as \<open>(a and b) or c\<close>, so
  the first condition is \<open>(prefix_pos > 0 and line[prefix_pos-1].isalnum()) or line[prefix_pos-1] == '_'\<close>.
\<close>

definition is_standalone :: "string \<Rightarrow> int \<Rightarrow> string \<Rightarrow> bool" where
  "is_standalone line prefix_pos var_name =
     (\<not> ((prefix_pos > 0 \<and> isalnum (py_index line (prefix_pos - 1)))
          \<or> py_index line (prefix_pos - 1) = CHR ''_'')
      \<and> \<not> (prefix_pos + int (length var_name) < int (length line)
             \<and> (isalnum (py_index line (prefix_pos + int (length var_name)))
                \<or> py_index line (prefix_pos + int (length var_name)) = CHR ''_'')))"

text \<open>
  One iteration of \<open>for var_name, line_num, col_num in unused_vars\<close> on the state
  \<open>(lines, fixes)\<close>.
\<close>

definition fix_unused_var :: "string list \<times> nat \<Rightarrow> string \<times> int \<times> int \<Rightarrow> string list \<times> nat" where
  "fix_unused_var st uv =
     (case (st, uv) of ((lines, fixes), (var_name, line_num, col_num)) \<Rightarrow>
        if prefix ''_'' var_name then (lines, fixes)
        else if line_num \<le> 0 \<or> line_num > int (length lines) then (lines, fixes)
        else
          (let line = lines ! nat (line_num - 1);
               prefix_pos = col_num - 1
           in if prefix_pos \<ge> 0 \<and> prefix_pos < int (length line)
                 \<and> py_slice line prefix_pos (prefix_pos + int (length var_name)) = var_name
                 \<and> is_standalone line prefix_pos var_name
              then (lines[nat (line_num - 1) :=
                            take (nat prefix_pos) line @ ''_'' @ drop (nat prefix_pos) line],
                    fixes + 1)
              else (lines, fixes)))"

text \<open>
  The rewriting part of \<open>fix_unused_vars\<close>, from the lines read and the flagged
  \<open>(var_name, line, column)\<close> triples: the lines the file holds afterwards and the
  number of fixes.
\<close>

definition fix_unused_vars :: "string list \<Rightarrow> (string \<times> int \<times> int) list \<Rightarrow> string list \<times> nat" where
  "fix_unused_vars lines unused_vars = foldl fix_unused_var (lines, 0) unused_vars"

section \<open>Python dictionaries, sorting and paths\<close>

text \<open>
  A \<open>dict\<close> keeps its keys in insertion order, and the display loops iterate in that
  order, so a dictionary is an association list with one entry per key. \<open>upd k d f\<close> is
  the access \<open>m[k] = f(m[k])\<close> on a \<open>defaultdict\<close> whose default value is \<open>d\<close>: an
  existing key keeps its place, a new key goes to the end.
\<close>

fun upd :: "'k \<Rightarrow> 'v \<Rightarrow> ('v \<Rightarrow> 'v) \<Rightarrow> ('k \<times> 'v) list \<Rightarrow> ('k \<times> 'v) list" where
  "upd k d f [] = [(k, f d)]"
| "upd k d f ((k', v) # kvs) = (if k = k' then (k', f v) # kvs else (k', v) # upd k d f kvs)"

definition incr :: "'k \<Rightarrow> ('k \<times> nat) list \<Rightarrow> ('k \<times> nat) list" where
  "incr k m = upd k 0 (\<lambda>n. n + 1) m"

text \<open>Reading \<open>m[k]\<close> of a key that the loops have taken from \<open>m\<close> itself.\<close>

definition lookup :: "('k \<times> 'v list) list \<Rightarrow> 'k \<Rightarrow> 'v list" where
  "lookup m k = (case map_of m k of None \<Rightarrow> [] | Some v \<Rightarrow> v)"

text \<open>
  \<open>sorted(items, key=lambda x: x[1], reverse=True)\<close>: Python's sort is stable, and with
  \<open>reverse=True\<close> it reverses the list, sorts it ascending and reverses the result, so
  that elements with equal keys keep their original order.
\<close>

definition sorted_desc :: "('a \<times> nat) list \<Rightarrow> ('a \<times> nat) list" where
  "sorted_desc items = rev (sort_key snd (rev items))"

text \<open>\<open>os.path.dirname\<close> and \<open>os.path.basename\<close> (posixpath).\<close>

definition sep :: char where
  "sep = CHR ''/''"

definition rfind_sep1 :: "string \<Rightarrow> nat" where
  "rfind_sep1 p = length p - length (takeWhile (\<lambda>x. x \<noteq> sep) (rev p))"

definition rstrip_sep :: "string \<Rightarrow> string" where
  "rstrip_sep p = rev (dropWhile (\<lambda>x. x = sep) (rev p))"

definition dirname :: "string \<Rightarrow> string" where
  "dirname p =
     (let head = take (rfind_sep1 p) p
      in if head \<noteq> [] \<and> head \<noteq> replicate (length head) sep then rstrip_sep head else head)"

definition basename :: "string \<Rightarrow> string" where
  "basename p = drop (rfind_sep1 p) p"

text \<open>\<open>str.strip()\<close>.\<close>

definition strip :: "string \<Rightarrow> string" where
  "strip s = rev (dropWhile is_space (rev (dropWhile is_space s)))"

text \<open>\<open>match.group(n)\<close> for a group of the pattern.\<close>

definition match_group :: "string list \<Rightarrow> nat \<Rightarrow> string" where
  "match_group caps n = caps ! (n - 1)"

section \<open>The text report aggregator (analyze\_eslint.py)\<close>

definition file_pattern :: regex where
  "file_pattern =
     [A Bol, G [[LazyPlus Dot]], ch CHR '':'', ws1] @ L ''line'' @ [ws1, A (Plus Dg), ch CHR '','', ws1]
     @ L ''col'' @ [ws1, A (Plus Dg), ch CHR '','', ws1, G [lit ''Error'', lit ''Warning''], ws1,
        ch CHR ''-'']"

type_synonym folder_file_errors = "(string \<times> (string \<times> nat) list) list"

text \<open>The body of \<open>for line in f\<close>.\<close>

definition count_line :: "folder_file_errors \<Rightarrow> string \<Rightarrow> folder_file_errors" where
  "count_line folder_file_errors line =
     (case match_at file_pattern (None, strip line) of
        None \<Rightarrow> folder_file_errors
      | Some (caps, _) \<Rightarrow>
          (let file_path = match_group caps 1;
               folder_path = dirname file_path
           in upd folder_path [] (incr file_path) folder_file_errors))"

text \<open>
  What the report path holds: nothing (\<open>os.path.exists\<close> is false), something that
  cannot be read (an exception inside the \<open>try\<close>), or lines of text.
\<close>

datatype report_file = NotFound | ReadError | Lines "string list"

datatype text_out =
    Analyzing
  | ErrorNotFound
  | ErrorReading
  | NoIssuesFound
  | Heading
  | FolderLine string nat    \<comment> \<open>\<open>{short_folder} ({error_count} issues)\<close>\<close>
  | FileLine string nat      \<comment> \<open>\<open>{filename}: {file_error_count} issues\<close>\<close>
  | AnalysisComplete

text \<open>\<open>parse_eslint_report\<close>: what it prints and what it returns.\<close>

definition parse_eslint_report_text :: "report_file \<Rightarrow> text_out list \<times> folder_file_errors" where
  "parse_eslint_report_text file =
     (case file of
        NotFound \<Rightarrow> ([ErrorNotFound], [])
      | ReadError \<Rightarrow> ([ErrorReading], [])
      | Lines ls \<Rightarrow> ([], foldl count_line [] ls))"

text \<open>
  \<open>display_sorted_results\<close>: the folder headings in print order, each with the file lines
  printed under it.
\<close>

definition folder_block :: "folder_file_errors \<Rightarrow> string \<times> nat \<Rightarrow> text_out \<times> text_out list" where
  "folder_block folder_file_errors fe =
     (case fe of (folder, error_count) \<Rightarrow>
        (FolderLine (if basename folder \<noteq> [] then basename folder else folder) error_count,
         map (\<lambda>(file_path, file_error_count). FileLine (basename file_path) file_error_count)
             (sorted_desc (lookup folder_file_errors folder))))"

definition folder_errors :: "folder_file_errors \<Rightarrow> (string \<times> nat) list" where
  "folder_errors folder_file_errors =
     map (\<lambda>(folder, files). (folder, sum_list (map snd files))) folder_file_errors"

definition folder_blocks :: "folder_file_errors \<Rightarrow> (text_out \<times> text_out list) list" where
  "folder_blocks folder_file_errors =
     map (folder_block folder_file_errors) (sorted_desc (folder_errors folder_file_errors))"

definition display_sorted_results :: "folder_file_errors \<Rightarrow> text_out list" where
  "display_sorted_results folder_file_errors =
     (if folder_file_errors = [] then [NoIssuesFound]
      else Heading # concat (map (\<lambda>(h, fs). h # fs) (folder_blocks folder_file_errors)))"

text \<open>\<open>main\<close>: everything printed, and the exit status of the process.\<close>

definition main_text :: "report_file \<Rightarrow> text_out list \<times> nat" where
  "main_text file =
     (let (printed, folder_file_errors) = parse_eslint_report_text file
      in ([Analyzing] @ printed @ display_sorted_results folder_file_errors @ [AnalysisComplete], 0))"

section \<open>The JSON report aggregator (scripts/analyze\_eslint.py)\<close>

text \<open>
  A message of the report, as far as the script reads it: the field \<open>ruleId\<close>, which may
  be missing, \<open>null\<close> or a string. \<open>message.get('ruleId', 'unknown')\<close> is then the key
  \<open>'unknown'\<close>, \<open>None\<close> or the string.
\<close>

datatype message = NoRuleId | NullRuleId | RuleId string

type_synonym rule_key = "string option"

fun get_ruleId :: "message \<Rightarrow> rule_key" where
  "get_ruleId NoRuleId = Some ''unknown''"
| "get_ruleId NullRuleId = None"
| "get_ruleId (RuleId s) = Some s"

text \<open>An element of the report; \<open>messages = None\<close> stands for a missing or \<open>null\<close> field.\<close>

record file_report =
  filePath :: string
  messages :: "message list option"

type_synonym rules = "(rule_key \<times> nat) list"
type_synonym issues = "(string \<times> (string \<times> rules) list) list"

text \<open>The body of \<open>for message in file_report['messages']\<close>.\<close>

definition count_message :: "rules \<times> rules \<times> nat \<Rightarrow> message \<Rightarrow> rules \<times> rules \<times> nat" where
  "count_message st m =
     (case st of (file_issues, rule_counts, total_issues) \<Rightarrow>
        (incr (get_ruleId m) file_issues, incr (get_ruleId m) rule_counts, total_issues + (1::nat)))"

text \<open>\<open>issues_by_dir[directory][filename][rule_id] = count\<close>.\<close>

definition store_rule :: "string \<Rightarrow> string \<Rightarrow> issues \<Rightarrow> rule_key \<times> nat \<Rightarrow> issues" where
  "store_rule directory filename issues_by_dir rc =
     upd directory [] (upd filename [] (upd (fst rc) 0 (\<lambda>_. snd rc))) issues_by_dir"

text \<open>
  The body of \<open>for file_report in report\<close>. \<open>os.path.relpath\<close> depends on the working
  directory of the process and is a parameter.
\<close>

definition file_step ::
  "(string \<Rightarrow> string) \<Rightarrow> issues \<times> rules \<times> nat \<Rightarrow> file_report \<Rightarrow> issues \<times> rules \<times> nat" where
  "file_step relpath st file_report =
     (case st of (issues_by_dir, rule_counts, total_issues) \<Rightarrow>
        (case messages file_report of
           None \<Rightarrow> st
         | Some [] \<Rightarrow> st
         | Some (m # ms) \<Rightarrow>
             (let rel_path = relpath (filePath file_report);
                  directory = dirname rel_path;
                  filename = basename rel_path;
                  (file_issues, rule_counts', total_issues') =
                     foldl count_message ([], rule_counts, total_issues) (m # ms)
              in (foldl (store_rule directory filename) issues_by_dir file_issues,
                  rule_counts', total_issues'))))"

definition aggregate :: "(string \<Rightarrow> string) \<Rightarrow> file_report list \<Rightarrow> issues \<times> rules \<times> nat" where
  "aggregate relpath report = foldl (file_step relpath) ([], [], 0) report"

text \<open>Exceptions that no handler of the script catches; they end the process.\<close>

datatype error = ZeroDivisionError | IndexError

text \<open>A percentage \<open>(n / d) * 100\<close>, kept as its two operands.\<close>

datatype percent = Percent nat nat

definition percent_of :: "nat \<Rightarrow> nat \<Rightarrow> error + percent" where
  "percent_of n d = (if d = 0 then Inl ZeroDivisionError else Inr (Percent n d))"

fun map_err :: "('a \<Rightarrow> error + 'b) \<Rightarrow> 'a list \<Rightarrow> error + 'b list" where
  "map_err f [] = Inr []"
| "map_err f (x # xs) =
     (case f x of
        Inl e \<Rightarrow> Inl e
      | Inr y \<Rightarrow> (case map_err f xs of Inl e \<Rightarrow> Inl e | Inr ys \<Rightarrow> Inr (y # ys)))"

text \<open>
  What \<open>display_analysis\<close> prints, grouped as its loops print it: a line per directory,
  under it a line per file, under that the rule lines and the optional line
  \<open>...and K more rule types\<close>.
\<close>

record file_lines =
  fl_name :: string
  fl_total :: nat
  fl_percent :: percent
  fl_rules :: rules
  fl_more :: "nat option"

record dir_lines =
  dl_name :: string
  dl_total :: nat
  dl_percent :: percent
  dl_files :: "file_lines list"

record analysis =
  an_total :: nat
  an_dirs :: "dir_lines list"
  an_top_rules :: "(rule_key \<times> nat \<times> percent) list"

definition rules_total :: "rules \<Rightarrow> nat" where
  "rules_total rs = sum_list (map snd rs)"

definition file_totals :: "(string \<times> rules) list \<Rightarrow> (string \<times> nat) list" where
  "file_totals files = map (\<lambda>(filename, rs). (filename, rules_total rs)) files"

definition dir_totals :: "issues \<Rightarrow> (string \<times> nat) list" where
  "dir_totals issues_by_dir =
     map (\<lambda>(directory, files). (directory, sum_list (map (\<lambda>(filename, rs). rules_total rs) files)))
         issues_by_dir"

definition show_file :: "(string \<times> rules) list \<Rightarrow> nat \<Rightarrow> string \<times> nat \<Rightarrow> error + file_lines" where
  "show_file files dir_total ft =
     (case ft of (filename, file_total) \<Rightarrow>
        (case percent_of file_total dir_total of
           Inl e \<Rightarrow> Inl e
         | Inr file_percent \<Rightarrow>
             (let sorted_rules = sorted_desc (lookup files filename)
              in Inr \<lparr> fl_name = filename, fl_total = file_total, fl_percent = file_percent,
                       fl_rules = take 5 sorted_rules,
                       fl_more = (if length sorted_rules > 5 then Some (length sorted_rules - 5)
                                  else None) \<rparr>)))"

definition show_dir :: "issues \<Rightarrow> nat \<Rightarrow> string \<times> nat \<Rightarrow> error + dir_lines" where
  "show_dir issues_by_dir total_issues dt =
     (case dt of (directory, dir_total) \<Rightarrow>
        (case percent_of dir_total total_issues of
           Inl e \<Rightarrow> Inl e
         | Inr dir_percent \<Rightarrow>
             (let files = lookup issues_by_dir directory
              in case map_err (show_file files dir_total) (sorted_desc (file_totals files)) of
                   Inl e \<Rightarrow> Inl e
                 | Inr fls \<Rightarrow> Inr \<lparr> dl_name = directory, dl_total = dir_total,
                                    dl_percent = dir_percent, dl_files = fls \<rparr>)))"

definition show_top_rule :: "nat \<Rightarrow> rule_key \<times> nat \<Rightarrow> error + rule_key \<times> nat \<times> percent" where
  "show_top_rule total_issues rc =
     (case percent_of (snd rc) total_issues of
        Inl e \<Rightarrow> Inl e
      | Inr rule_percent \<Rightarrow> Inr (fst rc, snd rc, rule_percent))"

definition display_analysis :: "issues \<Rightarrow> rules \<Rightarrow> nat \<Rightarrow> error + analysis" where
  "display_analysis issues_by_dir rule_counts total_issues =
     (case map_err (show_dir issues_by_dir total_issues) (sorted_desc (dir_totals issues_by_dir)) of
        Inl e \<Rightarrow> Inl e
      | Inr dls \<Rightarrow>
          (case map_err (show_top_rule total_issues) (take 10 (sorted_desc rule_counts)) of
             Inl e \<Rightarrow> Inl e
           | Inr tops \<Rightarrow> Inr \<lparr> an_total = total_issues, an_dirs = dls, an_top_rules = tops \<rparr>))"

text \<open>
  What \<open>eslint_report.json\<close> holds when it is opened: nothing, text that is not JSON, or
  a report.
\<close>

datatype json_file = FileNotFound | InvalidJson | Report "file_report list"

datatype json_out =
    NoReportFound
  | ReportGenerated
  | ErrorFileNotFound
  | ErrorInvalidJson
  | Analysis analysis
  | AnalysisAborted error
  | Complete
  | NextStep string

text \<open>How the process ends: it returns from \<open>main\<close>, calls \<open>sys.exit(n)\<close>, or dies of an exception.\<close>

datatype ending = Returned | SysExit nat | Uncaught error

fun exit_status :: "ending \<Rightarrow> nat" where
  "exit_status Returned = 0"
| "exit_status (SysExit n) = n"
| "exit_status (Uncaught e) = 1"

text \<open>
  \<open>parse_eslint_report\<close>: it prints an error and leaves through \<open>sys.exit(1)\<close>, or returns
  the aggregation.
\<close>

definition parse_eslint_report ::
  "(string \<Rightarrow> string) \<Rightarrow> json_file \<Rightarrow> json_out list \<times> (ending + issues \<times> rules \<times> nat)" where
  "parse_eslint_report relpath file =
     (case file of
        FileNotFound \<Rightarrow> ([ErrorFileNotFound], Inl (SysExit 1))
      | InvalidJson \<Rightarrow> ([ErrorInvalidJson], Inl (SysExit 1))
      | Report report \<Rightarrow> ([], Inr (aggregate relpath report)))"

text \<open>
  \<open>generate_eslint_report\<close>: when the report is missing it runs the linter through the
  shell; \<open>generated\<close> is what the report path holds after that command.
\<close>

definition generate_eslint_report :: "json_file \<Rightarrow> json_file \<Rightarrow> json_out list \<times> json_file" where
  "generate_eslint_report file generated =
     (if file = FileNotFound then ([NoReportFound, ReportGenerated], generated) else ([], file))"

text \<open>
  \<open>main\<close>. Its last line prints \<open>list(issues_by_dir.keys())[0]\<close>, which raises
  \<open>IndexError\<close> on an empty dictionary.
\<close>

definition main_json :: "(string \<Rightarrow> string) \<Rightarrow> json_file \<Rightarrow> json_file \<Rightarrow> json_out list \<times> ending" where
  "main_json relpath file generated =
     (let (out1, file') = generate_eslint_report file generated;
          (out2, parsed) = parse_eslint_report relpath file'
      in case parsed of
           Inl e \<Rightarrow> (out1 @ out2, e)
         | Inr (issues_by_dir, rule_counts, total_issues) \<Rightarrow>
             (case display_analysis issues_by_dir rule_counts total_issues of
                Inl err \<Rightarrow> (out1 @ out2 @ [AnalysisAborted err], Uncaught err)
              | Inr a \<Rightarrow>
                  (case issues_by_dir of
                     [] \<Rightarrow> (out1 @ out2 @ [Analysis a, Complete], Uncaught IndexError)
                   | (directory, _) # _ \<Rightarrow>
                       (out1 @ out2 @ [Analysis a, Complete, NextStep directory], Returned))))"

section \<open>Notions of the specification\<close>

text \<open>
  The specification's ``standalone token'': the name stands at the offset, and neither the
  character before it nor the character after it (where there is one) is alphanumeric
  or an underscore.
\<close>

definition spec_standalone :: "string \<Rightarrow> nat \<Rightarrow> string \<Rightarrow> bool" where
  "spec_standalone line pos name =
     (take (length name) (drop pos line) = name
      \<and> (if pos = 0 then True else \<not> is_word (line ! (pos - 1)))
      \<and> (if length line \<le> pos + length name then True else \<not> is_word (line ! (pos + length name))))"

text \<open>
  The shape of a line of the text report,
  \<open><path>: line <n>, col <n>, (Error|Warning) - <message>\<close>: \<open><path>\<close> is a non-empty text without
  a newline, each blank of the template stands for one or more whitespace characters,
  \<open><n>\<close> for one or more digits, and \<open><message>\<close> for any text. The aggregator looks at the
  line with the whitespace around it stripped.
\<close>

definition blank :: "string \<Rightarrow> bool" where
  "blank w = (w \<noteq> [] \<and> list_all is_space w)"

definition number :: "string \<Rightarrow> bool" where
  "number n = (n \<noteq> [] \<and> list_all is_digit n)"

definition report_line_tail :: "string \<Rightarrow> bool" where
  "report_line_tail t =
     (\<exists>w1 w2 n1 w3 w4 n2 w5 sev w6 msg.
        t = '':'' @ w1 @ ''line'' @ w2 @ n1 @ '','' @ w3 @ ''col'' @ w4 @ n2 @ '','' @ w5 @ sev @ w6
              @ ''-'' @ msg
        \<and> blank w1 \<and> blank w2 \<and> number n1 \<and> blank w3 \<and> blank w4 \<and> number n2 \<and> blank w5
        \<and> (sev = ''Error'' \<or> sev = ''Warning'') \<and> blank w6)"

definition report_line_shape :: "string \<Rightarrow> bool" where
  "report_line_shape s =
     (\<exists>path t. s = path @ t \<and> path \<noteq> [] \<and> CHR 0x0A \<notin> set path \<and> report_line_tail t)"

text \<open>
  ``Inserting a single leading underscore before the identifier'': \<open>underscored v s out n\<close>
  says that \<open>out\<close> is \<open>s\<close> with one underscore put directly in front of \<open>n\<close> occurrences of
  \<open>v\<close>, read from left to right, and nothing else changed, except that a run of whitespace
  directly in front of a rewritten occurrence becomes one blank (as the replacement
  \<open>\1 _\2\3\<close> of the first pattern does). \<open>underscored_rounds\<close> chains such passes.
\<close>

inductive underscored :: "string \<Rightarrow> string \<Rightarrow> string \<Rightarrow> nat \<Rightarrow> bool" for v :: string where
  U_end: "underscored v [] [] 0"
| U_copy: "underscored v s out n \<Longrightarrow> underscored v (x # s) (x # out) n"
| U_site: "underscored v s out n \<Longrightarrow> list_all is_space w \<Longrightarrow>
           underscored v (w @ v @ s) ((if w = [] then [] else '' '') @ ''_'' @ v @ out) (Suc n)"

inductive underscored_rounds :: "string \<Rightarrow> string \<Rightarrow> string \<Rightarrow> bool" for v :: string where
  R_none: "underscored_rounds v s s"
| R_round: "underscored v s mid n \<Longrightarrow> underscored_rounds v mid out \<Longrightarrow> underscored_rounds v s out"

section \<open>Auxiliary notions\<close>

text \<open>
  The value that \<open>m[k]\<close> reads on a \<open>defaultdict\<close> with default \<open>d\<close>.
\<close>

definition old_value :: "('k \<times> 'v) list \<Rightarrow> 'k \<Rightarrow> 'v \<Rightarrow> 'v" where
  "old_value m k d = (case map_of m k of None \<Rightarrow> d | Some v \<Rightarrow> v)"

text \<open>
  Invariants of the aggregation: every stored count is positive and no stored dictionary is empty.
\<close>

definition rules_ok :: "rules \<Rightarrow> bool" where
  "rules_ok rs = (rs \<noteq> [] \<and> (\<forall>n \<in> snd ` set rs. 0 < n))"

definition files_ok :: "(string \<times> rules) list \<Rightarrow> bool" where
  "files_ok files = (files \<noteq> [] \<and> (\<forall>rs \<in> snd ` set files. rules_ok rs))"

definition issues_ok :: "issues \<Rightarrow> bool" where
  "issues_ok issues_by_dir =
     (distinct (map fst issues_by_dir) \<and> (\<forall>files \<in> snd ` set issues_by_dir. files_ok files))"

text \<open>
  The sums that \<open>display_analysis\<close> computes with \<open>sum(...)\<close>.
\<close>

definition files_total :: "(string \<times> rules) list \<Rightarrow> nat" where
  "files_total files = sum_list (map (\<lambda>kv. rules_total (snd kv)) files)"

definition grand_total :: "issues \<Rightarrow> nat" where
  "grand_total issues_by_dir = sum_list (map (\<lambda>kv. files_total (snd kv)) issues_by_dir)"

text \<open>
  The count stored for a rule of a file of a directory (0 when there is none).
\<close>

definition stored :: "issues \<Rightarrow> string \<Rightarrow> string \<Rightarrow> rule_key \<Rightarrow> nat" where
  "stored issues_by_dir d f r = old_value (lookup (lookup issues_by_dir d) f) r 0"

text \<open>
  A report is well formed when no two of its entries that carry messages name the same
  file, that is the same pair of directory and file name. The linter writes one entry per file.
\<close>

definition has_messages :: "file_report \<Rightarrow> bool" where
  "has_messages file_report = (case messages file_report of Some (m # ms) \<Rightarrow> True | _ \<Rightarrow> False)"

definition file_key :: "(string \<Rightarrow> string) \<Rightarrow> file_report \<Rightarrow> string \<times> string" where
  "file_key relpath file_report =
     (dirname (relpath (filePath file_report)), basename (relpath (filePath file_report)))"

definition well_formed_report :: "(string \<Rightarrow> string) \<Rightarrow> file_report list \<Rightarrow> bool" where
  "well_formed_report relpath report = distinct (map (file_key relpath) (filter has_messages report))"

text \<open>
  All counts of a dictionary are positive.
\<close>

definition positive :: "('k \<times> nat) list \<Rightarrow> bool" where
  "positive m = (\<forall>n \<in> snd ` set m. 0 < n)"

text \<open>
  The invariant of the loop over the report; \<open>seen\<close> holds the files stored so far.
\<close>

definition agg_inv :: "(string \<times> string) set \<Rightarrow> issues \<times> rules \<times> nat \<Rightarrow> bool" where
  "agg_inv seen st =
     (case st of (issues_by_dir, rule_counts, total_issues) \<Rightarrow>
        issues_ok issues_by_dir \<and> grand_total issues_by_dir = total_issues
        \<and> sum_list (map snd rule_counts) = total_issues
        \<and> positive rule_counts
        \<and> (\<forall>d f r. (d, f) \<notin> seen \<longrightarrow> stored issues_by_dir d f r = 0))"

text \<open>
  The number that a line of the text aggregator displays.
\<close>

definition line_count :: "text_out \<Rightarrow> nat" where
  "line_count l = (case l of FolderLine _ n \<Rightarrow> n | FileLine _ n \<Rightarrow> n | _ \<Rightarrow> 0)"

text \<open>
  Concrete inputs, used to instantiate the theorems below.
\<close>

definition example_report :: "file_report list" where
  "example_report =
     [\<lparr>filePath = ''src/a/x.ts'', messages = Some [RuleId ''r1'', RuleId ''r2'', RuleId ''r1'']\<rparr>,
      \<lparr>filePath = ''src/b/y.ts'', messages = Some [NoRuleId, NullRuleId, RuleId ''r1'', RuleId ''r1'']\<rparr>,
      \<lparr>filePath = ''src/a/z.ts'', messages = Some []\<rparr>,
      \<lparr>filePath = ''src/b/w.ts'', messages = None\<rparr>,
      \<lparr>filePath = ''src/b/v.ts'', messages = Some [RuleId ''r3'']\<rparr>]"

definition example_analysis :: analysis where
  "example_analysis =
    \<lparr>an_total = 8,
     an_dirs =
       [\<lparr>dl_name = ''src/b'', dl_total = 5, dl_percent = Percent 5 8,
          dl_files =
            [\<lparr>fl_name = ''y.ts'', fl_total = 4, fl_percent = Percent 4 5,
               fl_rules = [(Some ''r1'', 2), (Some ''unknown'', 1), (None, 1)], fl_more = None\<rparr>,
             \<lparr>fl_name = ''v.ts'', fl_total = 1, fl_percent = Percent 1 5,
               fl_rules = [(Some ''r3'', 1)], fl_more = None\<rparr>]\<rparr>,
        \<lparr>dl_name = ''src/a'', dl_total = 3, dl_percent = Percent 3 8,
          dl_files =
            [\<lparr>fl_name = ''x.ts'', fl_total = 3, fl_percent = Percent 3 3,
               fl_rules = [(Some ''r1'', 2), (Some ''r2'', 1)], fl_more = None\<rparr>]\<rparr>],
     an_top_rules =
       [(Some ''r1'', 4, Percent 4 8), (Some ''r2'', 1, Percent 1 8),
        (Some ''unknown'', 1, Percent 1 8), (None, 1, Percent 1 8), (Some ''r3'', 1, Percent 1 8)]\<rparr>"

definition example_issues :: issues where
  "example_issues =
     [(''a'', [(''x.ts'', [(Some ''r1'', 1), (Some ''r2'', 3), (Some ''r3'', 2), (Some ''r4'', 1),
                          (Some ''r5'', 5), (Some ''r6'', 1), (Some ''r7'', 2)]),
               (''y.ts'', [(Some ''r1'', 20)])]),
      (''b'', [(''z.ts'', [(Some ''r1'', 40)])])]"

definition example_rules :: rules where
  "example_rules = [(Some ''r1'', 61), (Some ''r2'', 3), (Some ''r3'', 2), (Some ''r4'', 1),
                    (Some ''r5'', 5), (Some ''r6'', 1), (Some ''r7'', 2)]"

definition example_x_lines :: file_lines where
  "example_x_lines =
     \<lparr>fl_name = ''x.ts'', fl_total = 15, fl_percent = Percent 15 35,
      fl_rules = [(Some ''r5'', 5), (Some ''r2'', 3), (Some ''r3'', 2), (Some ''r7'', 2), (Some ''r1'', 1)],
      fl_more = Some 2\<rparr>"

definition example_a_lines :: dir_lines where
  "example_a_lines =
     \<lparr>dl_name = ''a'', dl_total = 35, dl_percent = Percent 35 75,
      dl_files =
        [\<lparr>fl_name = ''y.ts'', fl_total = 20, fl_percent = Percent 20 35,
           fl_rules = [(Some ''r1'', 20)], fl_more = None\<rparr>,
         example_x_lines]\<rparr>"

definition example_display :: analysis where
  "example_display =
     \<lparr>an_total = 75,
      an_dirs =
        [\<lparr>dl_name = ''b'', dl_total = 40, dl_percent = Percent 40 75,
           dl_files =
             [\<lparr>fl_name = ''z.ts'', fl_total = 40, fl_percent = Percent 40 40,
                fl_rules = [(Some ''r1'', 40)], fl_more = None\<rparr>]\<rparr>,
         example_a_lines],
      an_top_rules =
        [(Some ''r1'', 61, Percent 61 75), (Some ''r5'', 5, Percent 5 75),
         (Some ''r2'', 3, Percent 3 75), (Some ''r3'', 2, Percent 2 75),
         (Some ''r7'', 2, Percent 2 75), (Some ''r4'', 1, Percent 1 75),
         (Some ''r6'', 1, Percent 1 75)]\<rparr>"

definition example_lines :: "string list" where
  "example_lines =
     [''src/a/x.ts: line 1, col 2, Error - Unexpected any (no-explicit-any)'',
      ''3 problems'',
      ''src/a/y.ts: line 10, col 22, Warning - unused'',
      ''src/a/x.ts: line 7, col 1, Error - Unexpected any''] "

text \<open>
  What a pattern accepts, stated without the matcher: \<open>items_ok r p u rest gs\<close> says that
  the pattern \<open>r\<close>, started behind the character \<open>p\<close>, can consume exactly the text \<open>u\<close> in
  front of \<open>rest\<close>, its groups capturing the texts \<open>gs\<close>.
\<close>

definition lastc :: "char option \<Rightarrow> string \<Rightarrow> char option" where
  "lastc p u = (if u = [] then p else Some (last u))"

fun atom_ok :: "atom \<Rightarrow> char option \<Rightarrow> string \<Rightarrow> string \<Rightarrow> bool" where
  "atom_ok (One c) p u rest = (\<exists>x. u = [x] \<and> cls_ok c x)"
| "atom_ok (Opt c) p u rest = (u = [] \<or> (\<exists>x. u = [x] \<and> cls_ok c x))"
| "atom_ok (Star c) p u rest = list_all (cls_ok c) u"
| "atom_ok (Plus c) p u rest = (u \<noteq> [] \<and> list_all (cls_ok c) u)"
| "atom_ok (LazyStar c) p u rest = list_all (cls_ok c) u"
| "atom_ok (LazyPlus c) p u rest = (u \<noteq> [] \<and> list_all (cls_ok c) u)"
| "atom_ok Bnd p u rest = (u = [] \<and> word_before (p, rest) \<noteq> word_ahead (p, rest))"
| "atom_ok Bol p u rest = (u = [] \<and> p = None)"

fun seq_ok :: "atom list \<Rightarrow> char option \<Rightarrow> string \<Rightarrow> string \<Rightarrow> bool" where
  "seq_ok [] p u rest = (u = [])"
| "seq_ok (a # as) p u rest =
     (\<exists>u1 u2. u = u1 @ u2 \<and> atom_ok a p u1 (u2 @ rest) \<and> seq_ok as (lastc p u1) u2 rest)"

fun items_ok :: "regex \<Rightarrow> char option \<Rightarrow> string \<Rightarrow> string \<Rightarrow> string list \<Rightarrow> bool" where
  "items_ok [] p u rest gs = (u = [] \<and> gs = [])"
| "items_ok (A a # is) p u rest gs =
     (\<exists>u1 u2. u = u1 @ u2 \<and> atom_ok a p u1 (u2 @ rest) \<and> items_ok is (lastc p u1) u2 rest gs)"
| "items_ok (G alts # is) p u rest gs =
     (\<exists>u1 u2 gs'. u = u1 @ u2 \<and> gs = u1 # gs' \<and> (\<exists>alt \<in> set alts. seq_ok alt p u1 (u2 @ rest))
        \<and> items_ok is (lastc p u1) u2 rest gs')"

text \<open>
  The messages of a report entry (none when the field is missing).
\<close>

definition the_messages :: "file_report \<Rightarrow> message list" where
  "the_messages file_report = (case messages file_report of None \<Rightarrow> [] | Some ms \<Rightarrow> ms)"

text \<open>
  Further invariants of the loop over the report: the rules stored for a file, and the
  entries handled so far.
\<close>

definition inner_distinct :: "issues \<Rightarrow> bool" where
  "inner_distinct issues_by_dir = (\<forall>files \<in> snd ` set issues_by_dir. distinct (map fst files))"

definition file_rules :: "issues \<Rightarrow> string \<times> string \<Rightarrow> rules" where
  "file_rules issues_by_dir key = lookup (lookup issues_by_dir (fst key)) (snd key)"

definition agg_files ::
  "(string \<Rightarrow> string) \<Rightarrow> file_report list \<Rightarrow> issues \<times> rules \<times> nat \<Rightarrow> bool" where
  "agg_files relpath handled st =
     (case st of (issues_by_dir, rule_counts, total_issues) \<Rightarrow>
        inner_distinct issues_by_dir
        \<and> (\<forall>key. key \<notin> file_key relpath ` set handled \<longrightarrow> file_rules issues_by_dir key = [])
        \<and> (\<forall>fr \<in> set handled.
              rules_total (file_rules issues_by_dir (file_key relpath fr)) = length (the_messages fr))
        \<and> total_issues = sum_list (map (\<lambda>fr. length (the_messages fr)) handled))"

text \<open>
  For the text aggregator: the path under which a line is counted (\<open>match.group(1)\<close>), the
  number of lines counted for a path, and the count stored for a path in a folder.
\<close>

definition counted_path :: "string \<Rightarrow> string option" where
  "counted_path line =
     (case match_at file_pattern (None, strip line) of
        None \<Rightarrow> None
      | Some (caps, _) \<Rightarrow> Some (match_group caps 1))"

definition lines_of :: "string list \<Rightarrow> string \<Rightarrow> nat" where
  "lines_of ls p = length (filter (\<lambda>l. counted_path l = Some p) ls)"

definition stored_count :: "folder_file_errors \<Rightarrow> string \<Rightarrow> string \<Rightarrow> nat" where
  "stored_count ffe d p = old_value (lookup ffe d) p 0"

definition text_ok :: "folder_file_errors \<Rightarrow> bool" where
  "text_ok ffe = (distinct (map fst ffe)
     \<and> (\<forall>files \<in> snd ` set ffe. distinct (map fst files) \<and> positive files))"

text \<open>
  \<open>os.path.basename(folder) or folder\<close>.
\<close>

definition short_folder :: "string \<Rightarrow> string" where
  "short_folder folder = (if basename folder \<noteq> [] then basename folder else folder)"


section \<open>Verified properties\<close>

lemmas regex_eval = lit_def L_def match_at_def m_alts_def consumed_def is_space_def is_digit_def
  isalnum_def is_word_def word_before_def word_ahead_def sub_def subn_def subn_from.simps
  search_def ch_def ws0_def ws1_def

lemmas unused_eval = fix_variable_def apply_patterns_def patterns_def sublist_code(3)

subsection \<open>Substitution where nothing matches\<close>

lemma subn_from_no_match:
  "\<not> search_from r p s \<Longrightarrow> subn_from r t p s = (s, 0)"
proof (induction s arbitrary: p)
  case Nil
  then have "match_at r (p, []) = None" by (cases "match_at r (p, [])") auto
  then show ?case by (subst subn_from.simps) simp
next
  case (Cons x xs)
  then have "match_at r (p, x # xs) = None" and "\<not> search_from r (Some x) xs"
    by (cases "match_at r (p, x # xs)"; auto)+
  with Cons.IH [of "Some x"] show ?case
    by (subst subn_from.simps) simp
qed



subsection \<open>Dictionaries\<close>

lemma map_of_upd: "map_of (upd k d f m) = (map_of m)(k \<mapsto> f (old_value m k d))"
  by (induction m) (auto simp: old_value_def fun_eq_iff)

lemma keys_upd: "set (map fst (upd k d f m)) = insert k (set (map fst m))"
proof (induction m)
  case Nil then show ?case by simp
next
  case (Cons a m)
  then show ?case by (cases a) (simp add: insert_commute)
qed

lemma distinct_upd: "distinct (map fst m) \<Longrightarrow> distinct (map fst (upd k d f m))"
proof (induction m)
  case Nil then show ?case by simp
next
  case (Cons a m)
  obtain k' v where a: "a = (k', v)" by (cases a)
  have "set (map fst (upd k d f m)) = insert k (set (map fst m))" by (rule keys_upd)
  with Cons a show ?case by auto
qed

lemma upd_not_Nil: "upd k d f m \<noteq> []"
  by (cases m) (auto split: if_splits)

lemma values_upd:
  "(\<forall>v \<in> snd ` set m. P v) \<Longrightarrow> P (f (old_value m k d)) \<Longrightarrow> \<forall>v \<in> snd ` set (upd k d f m). P v"
  by (induction m) (auto simp: old_value_def split: if_splits)

lemma sum_upd:
  "w d = 0 \<Longrightarrow>
   sum_list (map (\<lambda>kv. w (snd kv)) (upd k d f m)) + w (old_value m k d)
     = sum_list (map (\<lambda>kv. w (snd kv)) m) + (w (f (old_value m k d)) :: nat)"
  by (induction m) (auto simp: old_value_def)

lemma lookup_upd: "lookup (upd k [] f m) k' = (if k' = k then f (lookup m k) else lookup m k')"
  by (simp add: lookup_def map_of_upd old_value_def)

lemma old_value_lookup: "old_value m k [] = lookup m k"
  by (simp add: lookup_def old_value_def)

lemma incr_sum: "sum_list (map snd (incr k m)) = sum_list (map snd m) + 1"
  using sum_upd [of "\<lambda>n. n" 0 k "\<lambda>n. n + 1" m] by (simp add: incr_def)

lemma incr_distinct: "distinct (map fst m) \<Longrightarrow> distinct (map fst (incr k m))"
  by (simp add: incr_def distinct_upd)

lemma incr_pos: "(\<forall>v \<in> snd ` set m. 0 < v) \<Longrightarrow> \<forall>v \<in> snd ` set (incr k m). 0 < v"
  unfolding incr_def by (rule values_upd) auto

subsection \<open>Sorting\<close>

lemma mset_sorted_desc: "mset (sorted_desc xs) = mset xs"
  by (simp add: sorted_desc_def)

lemma set_sorted_desc: "set (sorted_desc xs) = set xs"
  by (simp add: sorted_desc_def)

lemma length_sorted_desc: "length (sorted_desc xs) = length xs"
  by (simp add: sorted_desc_def)

lemma sorted_desc_sorted: "sorted_wrt (\<lambda>a b. snd a \<ge> snd b) (sorted_desc xs)"
proof -
  have "sorted (map snd (sort_key snd (rev xs)))" by (rule sorted_sort_key)
  then have "sorted_wrt (\<lambda>a b. snd a \<le> snd b) (sort_key snd (rev xs))"
    by (simp add: sorted_map)
  then show ?thesis
    by (simp add: sorted_desc_def sorted_wrt_rev)
qed

lemma sum_sorted_desc: "sum_list (map f (sorted_desc xs)) = (sum_list (map f xs) :: nat)"
proof -
  have "mset (map f (sorted_desc xs)) = mset (map f xs)"
    by (simp add: mset_sorted_desc)
  then have "sum_mset (mset (map f (sorted_desc xs))) = sum_mset (mset (map f xs))"
    by (rule arg_cong)
  then show ?thesis by (simp only: sum_mset_sum_list)
qed

subsection \<open>Loops that may raise\<close>

lemma map_err_Inr:
  "map_err f xs = Inr ys \<Longrightarrow> list_all2 (\<lambda>x y. f x = Inr y) xs ys"
proof (induction xs arbitrary: ys)
  case Nil then show ?case by simp
next
  case (Cons x xs)
  then show ?case by (auto split: sum.splits)
qed

lemma map_err_ok:
  "(\<forall>x \<in> set xs. \<exists>y. f x = Inr y) \<Longrightarrow> \<exists>ys. map_err f xs = Inr ys"
proof (induction xs)
  case Nil then show ?case by simp
next
  case (Cons x xs)
  then obtain y ys where "f x = Inr y" "map_err f xs = Inr ys" by auto
  then show ?case by simp
qed

lemma dir_totals_alt:
  "dir_totals issues_by_dir = map (\<lambda>kv. (fst kv, files_total (snd kv))) issues_by_dir"
  by (simp add: dir_totals_def files_total_def case_prod_unfold)

lemma file_totals_alt:
  "file_totals files = map (\<lambda>kv. (fst kv, rules_total (snd kv))) files"
  by (simp add: file_totals_def case_prod_unfold)

lemma grand_total_dir_totals: "sum_list (map snd (dir_totals issues_by_dir)) = grand_total issues_by_dir"
  by (simp add: dir_totals_alt grand_total_def comp_def)

lemma files_total_file_totals: "sum_list (map snd (file_totals files)) = files_total files"
  by (simp add: file_totals_alt files_total_def comp_def)

lemma old_value_upd:
  "old_value (upd k d f m) k' d = (if k' = k then f (old_value m k d) else old_value m k' d)"
  by (simp add: old_value_def map_of_upd)

lemma rules_ok_pos: "rules_ok rs \<Longrightarrow> 0 < rules_total rs"
  by (cases rs) (auto simp: rules_ok_def rules_total_def)

lemma files_ok_pos: "files_ok files \<Longrightarrow> 0 < files_total files"
  by (cases files) (auto simp: files_ok_def files_total_def rules_ok_pos)

lemma lookup_distinct:
  "distinct (map fst m) \<Longrightarrow> (k, v) \<in> set m \<Longrightarrow> lookup m k = v"
  by (simp add: lookup_def)

lemma old_value_in:
  "(\<forall>v \<in> snd ` set m. P v) \<Longrightarrow> P d \<Longrightarrow> P (old_value m k d)"
  by (auto simp: old_value_def split: option.splits dest!: map_of_SomeD)

subsection \<open>Storing one rule count\<close>

lemma store_rule_grand:
  "grand_total (store_rule d f issues_by_dir (r, n)) + stored issues_by_dir d f r
     = grand_total issues_by_dir + n"
proof -
  let ?files = "lookup issues_by_dir d"
  let ?rs = "lookup ?files f"
  let ?g = "upd r 0 (\<lambda>_. n)"
  let ?h = "upd f [] ?g"
  have l3: "rules_total (?g ?rs) + old_value ?rs r 0 = rules_total ?rs + n"
    using sum_upd [of "\<lambda>x. x" 0 r "\<lambda>_. n" ?rs] by (simp add: rules_total_def)
  have l2: "files_total (?h ?files) + rules_total ?rs = files_total ?files + rules_total (?g ?rs)"
    using sum_upd [of rules_total "[]" f ?g ?files]
    by (simp add: files_total_def old_value_lookup rules_total_def)
  have l1: "grand_total (upd d [] ?h issues_by_dir) + files_total ?files
      = grand_total issues_by_dir + files_total (?h ?files)"
    using sum_upd [of files_total "[]" d ?h issues_by_dir]
    by (simp add: grand_total_def old_value_lookup files_total_def)
  from l1 l2 l3 show ?thesis
    by (simp add: store_rule_def stored_def)
qed

lemma store_rule_stored:
  "stored (store_rule d f issues_by_dir (r, n)) d' f' r'
     = (if d' = d \<and> f' = f \<and> r' = r then n else stored issues_by_dir d' f' r')"
  by (simp add: store_rule_def stored_def lookup_upd old_value_upd)

lemma store_rule_ok:
  assumes "issues_ok issues_by_dir" and "0 < n"
  shows "issues_ok (store_rule d f issues_by_dir (r, n))"
proof -
  let ?files = "old_value issues_by_dir d []"
  let ?rs = "old_value ?files f []"
  from assms(1) have a: "\<forall>files \<in> snd ` set issues_by_dir. files_ok files"
    and dist: "distinct (map fst issues_by_dir)"
    by (simp_all add: issues_ok_def)
  from a have "\<forall>files \<in> snd ` set issues_by_dir. \<forall>rs \<in> snd ` set files. rules_ok rs"
    by (simp add: files_ok_def)
  then have b: "\<forall>rs \<in> snd ` set ?files. rules_ok rs"
    by (rule old_value_in [where P = "\<lambda>fs. \<forall>rs \<in> snd ` set fs. rules_ok rs"]) simp
  then have "\<forall>rs \<in> snd ` set ?files. \<forall>m \<in> snd ` set rs. 0 < m"
    by (simp add: rules_ok_def)
  then have "\<forall>m \<in> snd ` set ?rs. 0 < m"
    by (rule old_value_in [where P = "\<lambda>rs. \<forall>m \<in> snd ` set rs. 0 < m"]) simp
  then have "\<forall>m \<in> snd ` set (upd r 0 (\<lambda>_. n) ?rs). 0 < m"
    using assms(2) by (intro values_upd) simp_all
  then have c: "rules_ok (upd r 0 (\<lambda>_. n) ?rs)"
    by (simp add: rules_ok_def upd_not_Nil)
  have "\<forall>rs \<in> snd ` set (upd f [] (upd r 0 (\<lambda>_. n)) ?files). rules_ok rs"
    using b c by (intro values_upd) simp_all
  then have d: "files_ok (upd f [] (upd r 0 (\<lambda>_. n)) ?files)"
    by (simp add: files_ok_def upd_not_Nil)
  have "\<forall>files \<in> snd ` set (upd d [] (upd f [] (upd r 0 (\<lambda>_. n))) issues_by_dir). files_ok files"
    using a d by (intro values_upd) simp_all
  with dist show ?thesis
    by (simp add: issues_ok_def store_rule_def distinct_upd)
qed

subsection \<open>Storing the counts of one file\<close>

lemma store_file_grand:
  "distinct (map fst file_issues) \<Longrightarrow> \<forall>r \<in> fst ` set file_issues. stored issues_by_dir d f r = 0 \<Longrightarrow>
   grand_total (foldl (store_rule d f) issues_by_dir file_issues)
     = grand_total issues_by_dir + sum_list (map snd file_issues)"
proof (induction file_issues arbitrary: issues_by_dir)
  case Nil then show ?case by simp
next
  case (Cons a file_issues)
  obtain r n where a: "a = (r, n)" by (cases a)
  from Cons.prems a have z: "stored issues_by_dir d f r = 0" by simp
  have g: "grand_total (store_rule d f issues_by_dir (r, n)) = grand_total issues_by_dir + n"
    using store_rule_grand [of d f issues_by_dir r n] z by simp
  have "\<forall>r' \<in> fst ` set file_issues. stored (store_rule d f issues_by_dir (r, n)) d f r' = 0"
    using Cons.prems a by (auto simp: store_rule_stored)
  moreover have "distinct (map fst file_issues)" using Cons.prems by simp
  ultimately have "grand_total (foldl (store_rule d f) (store_rule d f issues_by_dir (r, n)) file_issues)
     = grand_total (store_rule d f issues_by_dir (r, n)) + sum_list (map snd file_issues)"
    by (rule Cons.IH [rotated])
  with g a show ?case by simp
qed

lemma store_file_stored:
  "(d', f') \<noteq> (d, f) \<Longrightarrow>
   stored (foldl (store_rule d f) issues_by_dir file_issues) d' f' r' = stored issues_by_dir d' f' r'"
proof (induction file_issues arbitrary: issues_by_dir)
  case Nil then show ?case by simp
next
  case (Cons a file_issues)
  then show ?case by (cases a) (auto simp: store_rule_stored)
qed

lemma store_file_ok:
  "issues_ok issues_by_dir \<Longrightarrow> \<forall>n \<in> snd ` set file_issues. 0 < n \<Longrightarrow>
   issues_ok (foldl (store_rule d f) issues_by_dir file_issues)"
proof (induction file_issues arbitrary: issues_by_dir)
  case Nil then show ?case by simp
next
  case (Cons a file_issues)
  obtain r n where a: "a = (r, n)" by (cases a)
  with Cons.prems have "issues_ok (store_rule d f issues_by_dir (r, n))"
    by (intro store_rule_ok) auto
  with Cons a show ?case by simp
qed

lemma count_message_step:
  "count_message (fi, rc, t) m = (incr (get_ruleId m) fi, incr (get_ruleId m) rc, t + 1)"
  by (simp add: count_message_def)

lemma incr_positive: "positive m \<Longrightarrow> positive (incr k m)"
  unfolding positive_def by (rule incr_pos)

lemma count_messages:
  "foldl count_message (fi0, rc0, t0) ms = (fi, rc, t) \<Longrightarrow>
     t = t0 + length ms
     \<and> sum_list (map snd fi) = sum_list (map snd fi0) + length ms
     \<and> sum_list (map snd rc) = sum_list (map snd rc0) + length ms
     \<and> (distinct (map fst fi0) \<longrightarrow> distinct (map fst fi))
     \<and> (positive fi0 \<longrightarrow> positive fi)
     \<and> (positive rc0 \<longrightarrow> positive rc)"
proof (induction ms arbitrary: fi0 rc0 t0)
  case Nil then show ?case by simp
next
  case (Cons m ms)
  from Cons.prems have
    "foldl count_message (incr (get_ruleId m) fi0, incr (get_ruleId m) rc0, t0 + 1) ms = (fi, rc, t)"
    by (simp add: count_message_step)
  from Cons.IH [OF this] show ?case
    by (simp add: incr_sum incr_distinct incr_positive)
qed

lemma stored_empty: "stored [] d f r = 0"
  by (simp add: stored_def lookup_def old_value_def)

lemma agg_inv_init: "agg_inv {} ([], [], 0)"
  by (simp add: agg_inv_def issues_ok_def grand_total_def stored_empty positive_def)

lemma file_step_skip: "\<not> has_messages fr \<Longrightarrow> file_step relpath st fr = st"
  by (cases st) (auto simp: file_step_def has_messages_def split: option.splits list.splits)

lemma file_step_inv:
  assumes inv: "agg_inv seen st" and has: "has_messages fr" and new: "file_key relpath fr \<notin> seen"
  shows "agg_inv (insert (file_key relpath fr) seen) (file_step relpath st fr)"
proof -
  obtain ibd rc t where st: "st = (ibd, rc, t)" by (cases st)
  from has obtain m ms where ms: "messages fr = Some (m # ms)"
    by (auto simp: has_messages_def split: option.splits list.splits)
  let ?d = "dirname (relpath (filePath fr))"
  let ?f = "basename (relpath (filePath fr))"
  obtain fi rc' t' where cm: "foldl count_message ([], rc, t) (m # ms) = (fi, rc', t')"
    by (cases "foldl count_message ([], rc, t) (m # ms)")
  have step: "file_step relpath st fr = (foldl (store_rule ?d ?f) ibd fi, rc', t')"
    using st ms cm by (simp add: file_step_def Let_def)
  from inv st have ok: "issues_ok ibd" and g: "grand_total ibd = t"
    and s: "sum_list (map snd rc) = t" and p: "positive rc"
    and z: "\<forall>d f r. (d, f) \<notin> seen \<longrightarrow> stored ibd d f r = 0"
    by (simp_all add: agg_inv_def)
  from count_messages [OF cm] have
    t': "t' = t + length (m # ms)" and sfi: "sum_list (map snd fi) = length (m # ms)"
    and src: "sum_list (map snd rc') = sum_list (map snd rc) + length (m # ms)"
    and dfi: "distinct (map fst fi)" and pfi: "positive fi"
    and prc: "positive rc'"
    using p by (simp_all add: positive_def)
  from new z have "\<forall>r \<in> fst ` set fi. stored ibd ?d ?f r = 0"
    by (simp add: file_key_def)
  with dfi have g': "grand_total (foldl (store_rule ?d ?f) ibd fi) = grand_total ibd + sum_list (map snd fi)"
    by (rule store_file_grand)
  have ok': "issues_ok (foldl (store_rule ?d ?f) ibd fi)"
    using ok pfi unfolding positive_def by (rule store_file_ok)
  have z': "\<forall>d f r. (d, f) \<notin> insert (file_key relpath fr) seen \<longrightarrow>
      stored (foldl (store_rule ?d ?f) ibd fi) d f r = 0"
    using z by (auto simp: file_key_def store_file_stored)
  from ok' g' g s t' sfi src prc z' show ?thesis
    unfolding step agg_inv_def by simp
qed

lemma aggregate_inv_gen:
  "agg_inv seen st \<Longrightarrow> distinct (map (file_key relpath) (filter has_messages report)) \<Longrightarrow>
   file_key relpath ` set (filter has_messages report) \<inter> seen = {} \<Longrightarrow>
   \<exists>seen'. agg_inv seen' (foldl (file_step relpath) st report)"
proof (induction report arbitrary: seen st)
  case Nil then show ?case by auto
next
  case (Cons fr report)
  show ?case
  proof (cases "has_messages fr")
    case False
    with Cons.prems have "\<exists>seen'. agg_inv seen' (foldl (file_step relpath) st report)"
      by (intro Cons.IH [of seen st]) auto
    with False show ?thesis by (simp add: file_step_skip)
  next
    case True
    with Cons.prems have new: "file_key relpath fr \<notin> seen" by auto
    have inv': "agg_inv (insert (file_key relpath fr) seen) (file_step relpath st fr)"
      using Cons.prems(1) True new by (rule file_step_inv)
    have "\<exists>seen'. agg_inv seen' (foldl (file_step relpath) (file_step relpath st fr) report)"
      using inv' Cons.prems True by (intro Cons.IH [of "insert (file_key relpath fr) seen"]) auto
    then show ?thesis by simp
  qed
qed

lemma aggregate_inv:
  "well_formed_report relpath report \<Longrightarrow> \<exists>seen. agg_inv seen (aggregate relpath report)"
  unfolding aggregate_def well_formed_report_def
  by (rule aggregate_inv_gen [OF agg_inv_init]) simp_all

subsection \<open>What the display prints\<close>

lemma show_file_Inr:
  "show_file files dir_total (filename, file_total) = Inr fl \<Longrightarrow>
   dir_total \<noteq> 0 \<and> fl_name fl = filename \<and> fl_total fl = file_total
   \<and> fl_rules fl = take 5 (sorted_desc (lookup files filename))
   \<and> fl_more fl = (if 5 < length (lookup files filename)
                    then Some (length (lookup files filename) - 5) else None)"
  by (auto simp: show_file_def percent_of_def Let_def length_sorted_desc split: if_splits)

lemma show_file_ok:
  "dir_total \<noteq> 0 \<Longrightarrow> \<exists>fl. show_file files dir_total ft = Inr fl"
  by (cases ft) (simp add: show_file_def percent_of_def Let_def)

lemma show_dir_Inr:
  "show_dir issues_by_dir total_issues (directory, dir_total) = Inr dl \<Longrightarrow>
   total_issues \<noteq> 0 \<and> dl_name dl = directory \<and> dl_total dl = dir_total
   \<and> list_all2 (\<lambda>ft fl. show_file (lookup issues_by_dir directory) dir_total ft = Inr fl)
        (sorted_desc (file_totals (lookup issues_by_dir directory))) (dl_files dl)"
  by (auto simp: show_dir_def percent_of_def Let_def split: if_splits sum.splits dest: map_err_Inr)

lemma show_dir_ok:
  assumes "total_issues \<noteq> 0" and "snd dt \<noteq> 0"
  shows "\<exists>dl. show_dir issues_by_dir total_issues dt = Inr dl"
proof -
  obtain d t where dt: "dt = (d, t)" by (cases dt)
  with assms(2) have "\<exists>fls. map_err (show_file (lookup issues_by_dir d) t)
      (sorted_desc (file_totals (lookup issues_by_dir d))) = Inr fls"
    by (intro map_err_ok) (simp add: show_file_ok)
  then show ?thesis
    using assms(1) dt by (auto simp: show_dir_def percent_of_def Let_def)
qed

lemma display_analysis_Inr:
  "display_analysis issues_by_dir rule_counts total_issues = Inr a \<Longrightarrow>
   an_total a = total_issues
   \<and> list_all2 (\<lambda>dt dl. show_dir issues_by_dir total_issues dt = Inr dl)
        (sorted_desc (dir_totals issues_by_dir)) (an_dirs a)"
  by (auto simp: display_analysis_def split: sum.splits dest: map_err_Inr)

lemma display_analysis_ok:
  assumes "issues_by_dir \<noteq> [] \<or> rule_counts \<noteq> [] \<Longrightarrow> total_issues \<noteq> 0"
    and "\<forall>dt \<in> set (dir_totals issues_by_dir). snd dt \<noteq> 0"
  shows "\<exists>a. display_analysis issues_by_dir rule_counts total_issues = Inr a"
proof -
  have "\<exists>dls. map_err (show_dir issues_by_dir total_issues) (sorted_desc (dir_totals issues_by_dir)) = Inr dls"
  proof (rule map_err_ok, rule ballI)
    fix dt assume "dt \<in> set (sorted_desc (dir_totals issues_by_dir))"
    then have in_dt: "dt \<in> set (dir_totals issues_by_dir)" by (simp add: set_sorted_desc)
    then have "issues_by_dir \<noteq> []" by (auto simp: dir_totals_def)
    with assms(1) have "total_issues \<noteq> 0" by simp
    moreover from in_dt assms(2) have "snd dt \<noteq> 0" by simp
    ultimately show "\<exists>y. show_dir issues_by_dir total_issues dt = Inr y" by (rule show_dir_ok)
  qed
  moreover have "\<exists>tops. map_err (show_top_rule total_issues) (take 10 (sorted_desc rule_counts)) = Inr tops"
  proof (rule map_err_ok, rule ballI)
    fix rc assume "rc \<in> set (take 10 (sorted_desc rule_counts))"
    then have "rule_counts \<noteq> []" by (auto simp: sorted_desc_def)
    with assms(1) have "total_issues \<noteq> 0" by simp
    then show "\<exists>y. show_top_rule total_issues rc = Inr y"
      by (simp add: show_top_rule_def percent_of_def)
  qed
  ultimately show ?thesis
    by (auto simp: display_analysis_def)
qed

lemma list_all2_map_eq:
  "list_all2 (\<lambda>x y. f x = Inr y) xs ys \<Longrightarrow> (\<And>x y. f x = Inr y \<Longrightarrow> g y = h x) \<Longrightarrow> map g ys = map h xs"
  by (induction rule: list_all2_induct) auto

lemma list_all2_right:
  "list_all2 P xs ys \<Longrightarrow> y \<in> set ys \<Longrightarrow> \<exists>x \<in> set xs. P x y"
  by (induction rule: list_all2_induct) auto

lemma dir_lines_totals:
  assumes "show_dir issues_by_dir total_issues (directory, dir_total) = Inr dl"
  shows "map (\<lambda>fl. (fl_name fl, fl_total fl)) (dl_files dl)
           = sorted_desc (file_totals (lookup issues_by_dir directory))"
proof -
  from show_dir_Inr [OF assms] have
    "list_all2 (\<lambda>ft fl. show_file (lookup issues_by_dir directory) dir_total ft = Inr fl)
        (sorted_desc (file_totals (lookup issues_by_dir directory))) (dl_files dl)" by simp
  then have "map (\<lambda>fl. (fl_name fl, fl_total fl)) (dl_files dl)
      = map (\<lambda>ft. ft) (sorted_desc (file_totals (lookup issues_by_dir directory)))"
  proof (rule list_all2_map_eq)
    fix x y assume "show_file (lookup issues_by_dir directory) dir_total x = Inr y"
    then show "(fl_name y, fl_total y) = x"
      using show_file_Inr [of "lookup issues_by_dir directory" dir_total "fst x" "snd x" y] by simp
  qed
  then show ?thesis by simp
qed

lemma analysis_dir_totals:
  assumes "display_analysis issues_by_dir rule_counts total_issues = Inr a"
  shows "map (\<lambda>dl. (dl_name dl, dl_total dl)) (an_dirs a) = sorted_desc (dir_totals issues_by_dir)"
proof -
  from display_analysis_Inr [OF assms] have
    "list_all2 (\<lambda>dt dl. show_dir issues_by_dir total_issues dt = Inr dl)
        (sorted_desc (dir_totals issues_by_dir)) (an_dirs a)" by simp
  then have "map (\<lambda>dl. (dl_name dl, dl_total dl)) (an_dirs a)
      = map (\<lambda>dt. dt) (sorted_desc (dir_totals issues_by_dir))"
  proof (rule list_all2_map_eq)
    fix x y assume "show_dir issues_by_dir total_issues x = Inr y"
    then show "(dl_name y, dl_total y) = x"
      using show_dir_Inr [of issues_by_dir total_issues "fst x" "snd x" y] by simp
  qed
  then show ?thesis by simp
qed

lemma analysis_dir_line:
  assumes "display_analysis issues_by_dir rule_counts total_issues = Inr a" and "dl \<in> set (an_dirs a)"
  shows "\<exists>dt \<in> set (dir_totals issues_by_dir). show_dir issues_by_dir total_issues dt = Inr dl"
proof -
  from display_analysis_Inr [OF assms(1)] have
    "list_all2 (\<lambda>dt dl. show_dir issues_by_dir total_issues dt = Inr dl)
        (sorted_desc (dir_totals issues_by_dir)) (an_dirs a)" by simp
  from list_all2_right [OF this assms(2)] show ?thesis by (simp add: set_sorted_desc)
qed

lemma dir_line_file_line:
  assumes "show_dir issues_by_dir total_issues (directory, dir_total) = Inr dl" and "fl \<in> set (dl_files dl)"
  shows "\<exists>ft. show_file (lookup issues_by_dir directory) dir_total ft = Inr fl"
proof -
  from show_dir_Inr [OF assms(1)] have
    "list_all2 (\<lambda>ft fl. show_file (lookup issues_by_dir directory) dir_total ft = Inr fl)
        (sorted_desc (file_totals (lookup issues_by_dir directory))) (dl_files dl)" by simp
  from list_all2_right [OF this assms(2)] show ?thesis by blast
qed

lemma count_line_distinct:
  "distinct (map fst ffe) \<Longrightarrow> distinct (map fst (count_line ffe line))"
  by (auto simp: count_line_def distinct_upd Let_def split: option.splits)

lemma count_lines_distinct:
  "distinct (map fst ffe) \<Longrightarrow> distinct (map fst (foldl count_line ffe ls))"
  by (induction ls arbitrary: ffe) (simp_all add: count_line_distinct)

lemma folder_block_sum:
  assumes "distinct (map fst ffe)" and "hb \<in> set (folder_blocks ffe)"
  shows "line_count (fst hb) = sum_list (map line_count (snd hb))"
proof -
  from assms(2) obtain folder n where fe: "(folder, n) \<in> set (folder_errors ffe)"
    and hb: "hb = folder_block ffe (folder, n)"
    by (auto simp: folder_blocks_def set_sorted_desc)
  from fe obtain files where files: "(folder, files) \<in> set ffe" and n: "n = sum_list (map snd files)"
    by (auto simp: folder_errors_def)
  from assms(1) files have l: "lookup ffe folder = files" by (rule lookup_distinct)
  have "map line_count (snd hb) = map snd (sorted_desc files)"
    by (simp add: hb folder_block_def l line_count_def case_prod_unfold comp_def)
  then have "sum_list (map line_count (snd hb)) = sum_list (map snd files)"
    by (simp add: sum_sorted_desc)
  moreover have "line_count (fst hb) = n"
    by (simp add: hb folder_block_def line_count_def)
  ultimately show ?thesis using n by simp
qed

lemma aggregate_display:
  assumes wf: "well_formed_report relpath report"
    and agg: "aggregate relpath report = (ibd, rc, tot)"
  shows "\<exists>a. display_analysis ibd rc tot = Inr a
           \<and> an_total a = sum_list (map dl_total (an_dirs a))
           \<and> (\<forall>dl \<in> set (an_dirs a). dl_total dl = sum_list (map fl_total (dl_files dl)))"
proof -
  from aggregate_inv [OF wf] agg obtain seen where "agg_inv seen (ibd, rc, tot)" by auto
  then have ok: "issues_ok ibd" and g: "grand_total ibd = tot"
    and s: "sum_list (map snd rc) = tot" and p: "positive rc"
    by (simp_all add: agg_inv_def)
  from ok have dist: "distinct (map fst ibd)" and fok: "\<forall>files \<in> snd ` set ibd. files_ok files"
    by (simp_all add: issues_ok_def)
  have pos: "\<forall>dt \<in> set (dir_totals ibd). snd dt \<noteq> 0"
    using fok by (auto simp: dir_totals_alt dest!: files_ok_pos)
  have nz: "tot \<noteq> 0" if "ibd \<noteq> [] \<or> rc \<noteq> []"
  proof (cases "ibd = []")
    case False
    then obtain kv rest where "ibd = kv # rest" by (cases ibd) auto
    with fok have "0 < files_total (snd kv)" by (simp add: files_ok_pos)
    with \<open>ibd = kv # rest\<close> g show ?thesis by (simp add: grand_total_def)
  next
    case True
    with that obtain kv rest where "rc = kv # rest" by (cases rc) auto
    with p s show ?thesis by (auto simp: positive_def)
  qed
  from display_analysis_ok [of ibd rc tot, OF nz pos]
  obtain a where a: "display_analysis ibd rc tot = Inr a" by auto
  have "map dl_total (an_dirs a) = map snd (map (\<lambda>dl. (dl_name dl, dl_total dl)) (an_dirs a))"
    by (simp add: comp_def)
  also have "\<dots> = map snd (sorted_desc (dir_totals ibd))"
    by (simp only: analysis_dir_totals [OF a])
  finally have "sum_list (map dl_total (an_dirs a)) = grand_total ibd"
    by (simp add: sum_sorted_desc grand_total_dir_totals)
  with g display_analysis_Inr [OF a] have t: "an_total a = sum_list (map dl_total (an_dirs a))"
    by simp
  have "dl_total dl = sum_list (map fl_total (dl_files dl))" if "dl \<in> set (an_dirs a)" for dl
  proof -
    from analysis_dir_line [OF a that] obtain d n where dt: "(d, n) \<in> set (dir_totals ibd)"
      and sd: "show_dir ibd tot (d, n) = Inr dl" by auto
    from dt obtain files where files: "(d, files) \<in> set ibd" and n: "n = files_total files"
      by (auto simp: dir_totals_alt)
    from dist files have l: "lookup ibd d = files" by (rule lookup_distinct)
    have "map fl_total (dl_files dl) = map snd (map (\<lambda>fl. (fl_name fl, fl_total fl)) (dl_files dl))"
      by (simp add: comp_def)
    also have "\<dots> = map snd (sorted_desc (file_totals files))"
      by (simp only: dir_lines_totals [OF sd] l)
    finally have "sum_list (map fl_total (dl_files dl)) = files_total files"
      by (simp add: sum_sorted_desc files_total_file_totals)
    with n show_dir_Inr [OF sd] show ?thesis by simp
  qed
  with a t show ?thesis by blast
qed

lemmas agg_eval = aggregate_def file_step_def count_message_def incr_def store_rule_def
  dirname_def basename_def rfind_sep1_def rstrip_sep_def sep_def Let_def

lemmas display_eval = display_analysis_def show_dir_def show_file_def show_top_rule_def
  percent_of_def sorted_desc_def lookup_def dir_totals_def file_totals_def rules_total_def Let_def

lemma example_aggregate:
  "aggregate (\<lambda>p. p) example_report =
     ([(''src/a'', [(''x.ts'', [(Some ''r1'', 2), (Some ''r2'', 1)])]),
       (''src/b'', [(''y.ts'', [(Some ''unknown'', 1), (None, 1), (Some ''r1'', 2)]),
                    (''v.ts'', [(Some ''r3'', 1)])])],
      [(Some ''r1'', 4), (Some ''r2'', 1), (Some ''unknown'', 1), (None, 1), (Some ''r3'', 1)],
      8)"
  by (simp add: example_report_def agg_eval)

lemma example_well_formed: "well_formed_report (\<lambda>p. p) example_report"
  by (simp add: example_report_def well_formed_report_def has_messages_def file_key_def
      dirname_def basename_def rfind_sep1_def rstrip_sep_def sep_def Let_def)

lemma example_display:
  "display_analysis
     [(''src/a'', [(''x.ts'', [(Some ''r1'', 2), (Some ''r2'', 1)])]),
       (''src/b'', [(''y.ts'', [(Some ''unknown'', 1), (None, 1), (Some ''r1'', 2)]),
                    (''v.ts'', [(Some ''r3'', 1)])])]
      [(Some ''r1'', 4), (Some ''r2'', 1), (Some ''unknown'', 1), (None, 1), (Some ''r3'', 1)]
      8 = Inr example_analysis"
  by (simp add: display_eval example_analysis_def)

lemma example_issues_display:
  "display_analysis example_issues example_rules 75 = Inr example_display"
  by (simp add: display_eval example_issues_def example_rules_def example_display_def
      example_a_lines_def example_x_lines_def)

subsection \<open>The matcher finds exactly what the pattern accepts\<close>

lemma lastc_Nil [simp]: "lastc p [] = p"
  by (simp add: lastc_def)

lemma lastc_Cons [simp]: "lastc p (x # u) = lastc (Some x) u"
  by (simp add: lastc_def)

lemma lastc_append [simp]: "lastc (lastc p u) v = lastc p (u @ v)"
  by (simp add: lastc_def)

lemma star_greedy_set:
  "set (star_greedy c (p, s)) = {(lastc p u, v) | u v. s = u @ v \<and> list_all (cls_ok c) u}"
proof (induction s arbitrary: p)
  case Nil then show ?case by auto
next
  case (Cons x xs)
  show ?case
  proof (intro set_eqI iffI)
    fix st assume "st \<in> set (star_greedy c (p, x # xs))"
    then consider "cls_ok c x" "st \<in> set (star_greedy c (Some x, xs))" | "st = (p, x # xs)"
      by (auto split: if_splits)
    then show "st \<in> {(lastc p u, v) | u v. x # xs = u @ v \<and> list_all (cls_ok c) u}"
    proof cases
      case 1
      then obtain u v where "st = (lastc (Some x) u, v)" "xs = u @ v" "list_all (cls_ok c) u"
        unfolding Cons.IH by auto
      with 1 have "st = (lastc p (x # u), v) \<and> x # xs = (x # u) @ v \<and> list_all (cls_ok c) (x # u)"
        by simp
      then show ?thesis by blast
    next
      case 2
      then have "st = (lastc p [], x # xs) \<and> x # xs = [] @ x # xs \<and> list_all (cls_ok c) []" by simp
      then show ?thesis by blast
    qed
  next
    fix st assume "st \<in> {(lastc p u, v) | u v. x # xs = u @ v \<and> list_all (cls_ok c) u}"
    then obtain u v where st: "st = (lastc p u, v)" and eq: "x # xs = u @ v" and ok: "list_all (cls_ok c) u"
      by auto
    show "st \<in> set (star_greedy c (p, x # xs))"
    proof (cases u)
      case Nil
      with st eq have "st = (p, x # xs)" by simp
      then show ?thesis by simp
    next
      case (Cons y u')
      with eq ok st have "cls_ok c x" "xs = u' @ v" "list_all (cls_ok c) u'" "st = (lastc (Some x) u', v)"
        by auto
      then have "st \<in> set (star_greedy c (Some x, xs))" unfolding Cons.IH by blast
      with \<open>cls_ok c x\<close> show ?thesis by simp
    qed
  qed
qed

lemma star_lazy_set: "set (star_lazy c (p, s)) = set (star_greedy c (p, s))"
  by (induction s arbitrary: p) auto

lemma m_atom_set:
  "set (m_atom a (p, s)) = {(lastc p u, v) | u v. s = u @ v \<and> atom_ok a p u v}"
proof (cases a)
  case (One c) then show ?thesis by (cases s) auto
next
  case (Opt c) then show ?thesis by (cases s) (auto simp: Cons_eq_append_conv)
next
  case (Star c) then show ?thesis by (simp add: star_greedy_set)
next
  case (Plus c)
  show ?thesis
  proof (cases s)
    case Nil with Plus show ?thesis by auto
  next
    case (Cons x xs)
    have "{(lastc p u, v) | u v. x # xs = u @ v \<and> u \<noteq> [] \<and> list_all (cls_ok c) u}
        = (if cls_ok c x then {(lastc (Some x) u, v) | u v. xs = u @ v \<and> list_all (cls_ok c) u} else {})"
      by (auto simp: Cons_eq_append_conv)
    with Plus Cons show ?thesis by (simp add: star_greedy_set)
  qed
next
  case (LazyStar c) then show ?thesis by (simp add: star_lazy_set star_greedy_set)
next
  case (LazyPlus c)
  show ?thesis
  proof (cases s)
    case Nil with LazyPlus show ?thesis by auto
  next
    case (Cons x xs)
    have "{(lastc p u, v) | u v. x # xs = u @ v \<and> u \<noteq> [] \<and> list_all (cls_ok c) u}
        = (if cls_ok c x then {(lastc (Some x) u, v) | u v. xs = u @ v \<and> list_all (cls_ok c) u} else {})"
      by (auto simp: Cons_eq_append_conv)
    with LazyPlus Cons show ?thesis by (simp add: star_lazy_set star_greedy_set)
  qed
next
  case Bnd then show ?thesis by (auto simp: word_before_def word_ahead_def)
next
  case Bol then show ?thesis by auto
qed

lemma m_seq_set:
  "set (m_seq as (p, s)) = {(lastc p u, v) | u v. s = u @ v \<and> seq_ok as p u v}"
proof (induction as arbitrary: p s)
  case Nil then show ?case by auto
next
  case (Cons a as)
  show ?case
  proof (intro set_eqI iffI)
    fix st assume "st \<in> set (m_seq (a # as) (p, s))"
    then obtain st1 where "st1 \<in> set (m_atom a (p, s))" and st: "st \<in> set (m_seq as st1)"
      by auto
    then obtain u1 v1 where st1: "st1 = (lastc p u1, v1)" and s: "s = u1 @ v1" and a: "atom_ok a p u1 v1"
      unfolding m_atom_set by auto
    from st st1 have "st \<in> {(lastc (lastc p u1) u, v) | u v. v1 = u @ v \<and> seq_ok as (lastc p u1) u v}"
      using Cons.IH [of "lastc p u1" v1] by simp
    then obtain u2 v where "st = (lastc (lastc p u1) u2, v)" and v1: "v1 = u2 @ v"
      and as: "seq_ok as (lastc p u1) u2 v"
      by blast
    with s a have "st = (lastc p (u1 @ u2), v) \<and> s = (u1 @ u2) @ v \<and> seq_ok (a # as) p (u1 @ u2) v"
      by auto
    then show "st \<in> {(lastc p u, v) | u v. s = u @ v \<and> seq_ok (a # as) p u v}" by blast
  next
    fix st assume "st \<in> {(lastc p u, v) | u v. s = u @ v \<and> seq_ok (a # as) p u v}"
    then obtain u v where st: "st = (lastc p u, v)" and s: "s = u @ v" and ok: "seq_ok (a # as) p u v"
      by auto
    from ok obtain u1 u2 where u: "u = u1 @ u2" and a: "atom_ok a p u1 (u2 @ v)"
      and as: "seq_ok as (lastc p u1) u2 v" by auto
    from s u a have "(lastc p u1, u2 @ v) \<in> set (m_atom a (p, s))"
      unfolding m_atom_set by auto
    moreover from as have "(lastc (lastc p u1) u2, v) \<in> set (m_seq as (lastc p u1, u2 @ v))"
      using Cons.IH [of "lastc p u1" "u2 @ v"] by blast
    ultimately show "st \<in> set (m_seq (a # as) (p, s))"
      using st u by auto
  qed
qed

lemma m_alts_set:
  "set (m_alts alts (p, s)) = {(lastc p u, v) | u v. s = u @ v \<and> (\<exists>alt \<in> set alts. seq_ok alt p u v)}"
  by (auto simp: m_alts_def m_seq_set)

lemma consumed_append [simp]: "consumed (p, u @ v) (p', v) = u"
  by (simp add: consumed_def)

lemma m_items_set:
  "set (m_items r caps (p, s))
     = {(caps @ gs, (lastc p u, v)) | u v gs. s = u @ v \<and> items_ok r p u v gs}"
proof (induction r arbitrary: caps p s)
  case Nil then show ?case by auto
next
  case (Cons i r)
  show ?case
  proof (cases i)
    case (A a)
    show ?thesis
    proof (intro set_eqI iffI)
      fix m assume "m \<in> set (m_items (i # r) caps (p, s))"
      with A obtain st1 where "st1 \<in> set (m_atom a (p, s))" and m: "m \<in> set (m_items r caps st1)"
        by auto
      then obtain u1 v1 where st1: "st1 = (lastc p u1, v1)" and s: "s = u1 @ v1" and a: "atom_ok a p u1 v1"
        unfolding m_atom_set by auto
      from m st1 have "m \<in> {(caps @ gs, (lastc (lastc p u1) u, v)) | u v gs.
          v1 = u @ v \<and> items_ok r (lastc p u1) u v gs}"
        using Cons.IH [of caps "lastc p u1" v1] by simp
      then obtain u2 v gs where "m = (caps @ gs, (lastc (lastc p u1) u2, v))" and v1: "v1 = u2 @ v"
        and r: "items_ok r (lastc p u1) u2 v gs"
        by blast
      with s a A have "m = (caps @ gs, (lastc p (u1 @ u2), v)) \<and> s = (u1 @ u2) @ v
          \<and> items_ok (i # r) p (u1 @ u2) v gs"
        by auto
      then show "m \<in> {(caps @ gs, (lastc p u, v)) | u v gs. s = u @ v \<and> items_ok (i # r) p u v gs}"
        by blast
    next
      fix m assume "m \<in> {(caps @ gs, (lastc p u, v)) | u v gs. s = u @ v \<and> items_ok (i # r) p u v gs}"
      then obtain u v gs where m: "m = (caps @ gs, (lastc p u, v))" and s: "s = u @ v"
        and ok: "items_ok (i # r) p u v gs" by auto
      from ok A obtain u1 u2 where u: "u = u1 @ u2" and a: "atom_ok a p u1 (u2 @ v)"
        and r: "items_ok r (lastc p u1) u2 v gs" by auto
      from s u a have "(lastc p u1, u2 @ v) \<in> set (m_atom a (p, s))"
        unfolding m_atom_set by auto
      moreover from r have "(caps @ gs, (lastc (lastc p u1) u2, v)) \<in> set (m_items r caps (lastc p u1, u2 @ v))"
        using Cons.IH [of caps "lastc p u1" "u2 @ v"] by blast
      ultimately show "m \<in> set (m_items (i # r) caps (p, s))"
        using m u A by auto
    qed
  next
    case (G alts)
    show ?thesis
    proof (intro set_eqI iffI)
      fix m assume "m \<in> set (m_items (i # r) caps (p, s))"
      with G obtain st1 where "st1 \<in> set (m_alts alts (p, s))"
        and m: "m \<in> set (m_items r (caps @ [consumed (p, s) st1]) st1)"
        by auto
      then obtain u1 v1 where st1: "st1 = (lastc p u1, v1)" and s: "s = u1 @ v1"
        and a: "\<exists>alt \<in> set alts. seq_ok alt p u1 v1"
        unfolding m_alts_set by auto
      from st1 s have c: "consumed (p, s) st1 = u1" by simp
      from m st1 c have "m \<in> {((caps @ [u1]) @ gs, (lastc (lastc p u1) u, v)) | u v gs.
          v1 = u @ v \<and> items_ok r (lastc p u1) u v gs}"
        using Cons.IH [of "caps @ [u1]" "lastc p u1" v1] by simp
      then obtain u2 v gs where "m = ((caps @ [u1]) @ gs, (lastc (lastc p u1) u2, v))"
        and v1: "v1 = u2 @ v" and r: "items_ok r (lastc p u1) u2 v gs"
        by blast
      with s a G have "m = (caps @ (u1 # gs), (lastc p (u1 @ u2), v)) \<and> s = (u1 @ u2) @ v
          \<and> items_ok (i # r) p (u1 @ u2) v (u1 # gs)"
        by auto
      then show "m \<in> {(caps @ gs, (lastc p u, v)) | u v gs. s = u @ v \<and> items_ok (i # r) p u v gs}"
        by blast
    next
      fix m assume "m \<in> {(caps @ gs, (lastc p u, v)) | u v gs. s = u @ v \<and> items_ok (i # r) p u v gs}"
      then obtain u v gs where m: "m = (caps @ gs, (lastc p u, v))" and s: "s = u @ v"
        and ok: "items_ok (i # r) p u v gs" by auto
      from ok G obtain u1 u2 gs' where u: "u = u1 @ u2" and gs: "gs = u1 # gs'"
        and a: "\<exists>alt \<in> set alts. seq_ok alt p u1 (u2 @ v)"
        and r: "items_ok r (lastc p u1) u2 v gs'" by auto
      from s u a have in1: "(lastc p u1, u2 @ v) \<in> set (m_alts alts (p, s))"
        unfolding m_alts_set by auto
      from s u have c: "consumed (p, s) (lastc p u1, u2 @ v) = u1" by simp
      from r have "((caps @ [u1]) @ gs', (lastc (lastc p u1) u2, v))
          \<in> set (m_items r (caps @ [u1]) (lastc p u1, u2 @ v))"
        using Cons.IH [of "caps @ [u1]" "lastc p u1" "u2 @ v"] by blast
      with in1 c show "m \<in> set (m_items (i # r) caps (p, s))"
        using m u gs G by force
    qed
  qed
qed

lemma match_at_None_iff:
  "match_at r (p, s) = None \<longleftrightarrow> (\<forall>u v gs. s = u @ v \<longrightarrow> \<not> items_ok r p u v gs)"
proof -
  have "match_at r (p, s) = None \<longleftrightarrow> set (m_items r [] (p, s)) = {}"
    by (simp add: match_at_def split: list.splits)
  also have "\<dots> \<longleftrightarrow> (\<forall>u v gs. s = u @ v \<longrightarrow> \<not> items_ok r p u v gs)"
    unfolding m_items_set by auto
  finally show ?thesis .
qed

lemma match_at_Some:
  "match_at r (p, s) = Some (caps, st) \<Longrightarrow>
   \<exists>u v. s = u @ v \<and> st = (lastc p u, v) \<and> items_ok r p u v caps"
proof -
  assume "match_at r (p, s) = Some (caps, st)"
  then have "(caps, st) \<in> set (m_items r [] (p, s))"
    by (auto simp: match_at_def split: list.splits)
  then show ?thesis unfolding m_items_set by auto
qed

lemma seq_ok_lit: "seq_ok (lit l) p u v \<longleftrightarrow> u = l"
proof (induction l arbitrary: p u)
  case Nil then show ?case by (simp add: lit_def)
next
  case (Cons x l)
  have "seq_ok (lit (x # l)) p u v \<longleftrightarrow> (\<exists>u2. u = x # u2 \<and> seq_ok (lit l) (Some x) u2 v)"
    by (auto simp: lit_def)
  then show ?case using Cons.IH by auto
qed

lemma items_ok_lit:
  "items_ok (L l @ r) p u v gs \<longleftrightarrow> (\<exists>u2. u = l @ u2 \<and> items_ok r (lastc p l) u2 v gs)"
proof (induction l arbitrary: p u)
  case Nil then show ?case by (simp add: L_def lit_def)
next
  case (Cons x l)
  have "items_ok (L (x # l) @ r) p u v gs \<longleftrightarrow> (\<exists>u2. u = x # u2 \<and> items_ok (L l @ r) (Some x) u2 v gs)"
    by (auto simp: L_def lit_def)
  then show ?case using Cons.IH by auto
qed

lemma items_ok_plus:
  "items_ok (A (Plus c) # r) p u v gs
     \<longleftrightarrow> (\<exists>w u2. u = w @ u2 \<and> w \<noteq> [] \<and> list_all (cls_ok c) w \<and> items_ok r (lastc p w) u2 v gs)"
  by auto

lemma items_ok_ch:
  "items_ok (ch x # r) p u v gs \<longleftrightarrow> (\<exists>u2. u = x # u2 \<and> items_ok r (Some x) u2 v gs)"
  by (auto simp: ch_def)

lemma cls_ok_Ws [simp]: "cls_ok Ws = is_space"
  by (rule ext) simp

lemma cls_ok_Dg [simp]: "cls_ok Dg = is_digit"
  by (rule ext) simp

lemma items_ok_ws1:
  "items_ok (ws1 # r) p u v gs
     \<longleftrightarrow> (\<exists>w u2. u = w @ u2 \<and> blank w \<and> items_ok r (lastc p w) u2 v gs)"
  by (simp add: ws1_def blank_def)

lemma items_ok_digits:
  "items_ok (A (Plus Dg) # r) p u v gs
     \<longleftrightarrow> (\<exists>w u2. u = w @ u2 \<and> number w \<and> items_ok r (lastc p w) u2 v gs)"
  by (simp add: number_def)

lemma items_ok_L_Cons:
  "items_ok (L l @ i # r) p u v gs \<longleftrightarrow> (\<exists>u2. u = l @ u2 \<and> items_ok (i # r) (lastc p l) u2 v gs)"
  by (rule items_ok_lit)

lemma items_ok_group_lits:
  "items_ok (G [lit a, lit b] # r) p u v gs
     \<longleftrightarrow> (\<exists>sev u2 gs'. u = sev @ u2 \<and> gs = sev # gs' \<and> (sev = a \<or> sev = b) \<and> items_ok r (lastc p sev) u2 v gs')"
  by (auto simp: seq_ok_lit)

lemma items_ok_Bol:
  "items_ok (A Bol # r) None u v gs \<longleftrightarrow> items_ok r None u v gs"
  by simp

lemma items_ok_path:
  "items_ok (G [[LazyPlus Dot]] # r) p u v gs
     \<longleftrightarrow> (\<exists>path u2 gs'. u = path @ u2 \<and> gs = path # gs' \<and> path \<noteq> [] \<and> CHR 0x0A \<notin> set path
            \<and> items_ok r (lastc p path) u2 v gs')"
  by (auto simp: list_all_iff)

lemma file_pattern_ok:
  "items_ok file_pattern None u v gs \<longleftrightarrow>
     (\<exists>path w1 w2 n1 w3 w4 n2 w5 sev w6.
        u = path @ '':'' @ w1 @ ''line'' @ w2 @ n1 @ '','' @ w3 @ ''col'' @ w4 @ n2 @ '','' @ w5 @ sev
              @ w6 @ ''-''
        \<and> gs = [path, sev] \<and> path \<noteq> [] \<and> CHR 0x0A \<notin> set path
        \<and> blank w1 \<and> blank w2 \<and> number n1 \<and> blank w3 \<and> blank w4 \<and> number n2 \<and> blank w5
        \<and> (sev = ''Error'' \<or> sev = ''Warning'') \<and> blank w6)"
  unfolding file_pattern_def
  apply (simp only: append_Cons append_Nil items_ok_ch items_ok_ws1 items_ok_digits items_ok_L_Cons
      items_ok_group_lits items_ok_Bol items_ok_path items_ok.simps(1))
  apply (rule iffI)
   apply (elim exE conjE)
   apply hypsubst
   apply (intro exI conjI)
               apply (rule refl | assumption)+
  apply (elim exE conjE)
  apply hypsubst
  apply (intro exI conjI)
                      apply (rule refl | assumption)+
  done

lemma shape_iff_items:
  "report_line_shape s \<longleftrightarrow> (\<exists>u v gs. s = u @ v \<and> items_ok file_pattern None u v gs)"
proof
  assume "report_line_shape s"
  then obtain path w1 w2 n1 w3 w4 n2 w5 sev w6 msg where
    s: "s = path @ '':'' @ w1 @ ''line'' @ w2 @ n1 @ '','' @ w3 @ ''col'' @ w4 @ n2 @ '','' @ w5 @ sev
              @ w6 @ ''-'' @ msg"
    and c: "path \<noteq> []" "CHR 0x0A \<notin> set path" "blank w1" "blank w2" "number n1" "blank w3" "blank w4"
      "number n2" "blank w5" "sev = ''Error'' \<or> sev = ''Warning''" "blank w6"
    unfolding report_line_shape_def report_line_tail_def by blast
  let ?u = "path @ '':'' @ w1 @ ''line'' @ w2 @ n1 @ '','' @ w3 @ ''col'' @ w4 @ n2 @ '','' @ w5 @ sev
              @ w6 @ ''-''"
  from c have "items_ok file_pattern None ?u msg [path, sev]"
    unfolding file_pattern_ok by blast
  moreover from s have "s = ?u @ msg" by simp
  ultimately show "\<exists>u v gs. s = u @ v \<and> items_ok file_pattern None u v gs" by blast
next
  assume "\<exists>u v gs. s = u @ v \<and> items_ok file_pattern None u v gs"
  then obtain u v gs where s: "s = u @ v" and ok: "items_ok file_pattern None u v gs" by blast
  from ok obtain path w1 w2 n1 w3 w4 n2 w5 sev w6 where
    u: "u = path @ '':'' @ w1 @ ''line'' @ w2 @ n1 @ '','' @ w3 @ ''col'' @ w4 @ n2 @ '','' @ w5 @ sev
              @ w6 @ ''-''"
    and c: "path \<noteq> []" "CHR 0x0A \<notin> set path" "blank w1" "blank w2" "number n1" "blank w3" "blank w4"
      "number n2" "blank w5" "sev = ''Error'' \<or> sev = ''Warning''" "blank w6"
    unfolding file_pattern_ok by blast
  from c have "report_line_tail ('':'' @ w1 @ ''line'' @ w2 @ n1 @ '','' @ w3 @ ''col'' @ w4 @ n2 @ '','' @ w5 @ sev
              @ w6 @ ''-'' @ v)"
    unfolding report_line_tail_def by blast
  moreover from s u have "s = path @ ('':'' @ w1 @ ''line'' @ w2 @ n1 @ '','' @ w3 @ ''col'' @ w4 @ n2 @ '','' @ w5 @ sev
              @ w6 @ ''-'' @ v)" by simp
  ultimately show "report_line_shape s"
    unfolding report_line_shape_def using c(1,2) by blast
qed

lemma match_file_pattern_Some:
  assumes "match_at file_pattern (None, s) = Some (caps, st)"
  shows "\<exists>path t. s = path @ t \<and> path \<noteq> [] \<and> CHR 0x0A \<notin> set path \<and> report_line_tail t
           \<and> match_group caps 1 = path"
proof -
  from match_at_Some [OF assms] obtain u v where s: "s = u @ v"
    and ok: "items_ok file_pattern None u v caps" by blast
  from ok obtain path w1 w2 n1 w3 w4 n2 w5 sev w6 where
    u: "u = path @ '':'' @ w1 @ ''line'' @ w2 @ n1 @ '','' @ w3 @ ''col'' @ w4 @ n2 @ '','' @ w5 @ sev
              @ w6 @ ''-''"
    and caps: "caps = [path, sev]"
    and c: "path \<noteq> []" "CHR 0x0A \<notin> set path" "blank w1" "blank w2" "number n1" "blank w3" "blank w4"
      "number n2" "blank w5" "sev = ''Error'' \<or> sev = ''Warning''" "blank w6"
    unfolding file_pattern_ok by blast
  from c have "report_line_tail ('':'' @ w1 @ ''line'' @ w2 @ n1 @ '','' @ w3 @ ''col'' @ w4 @ n2 @ '','' @ w5 @ sev
              @ w6 @ ''-'' @ v)"
    unfolding report_line_tail_def by blast
  moreover from s u have "s = path @ ('':'' @ w1 @ ''line'' @ w2 @ n1 @ '','' @ w3 @ ''col'' @ w4 @ n2 @ '','' @ w5 @ sev
              @ w6 @ ''-'' @ v)" by simp
  moreover from caps have "match_group caps 1 = path" by (simp add: match_group_def)
  ultimately show ?thesis using c(1,2) by blast
qed

lemma count_total_upd:
  "sum_list (map snd (folder_errors (upd folder [] (incr file) ffe)))
     = sum_list (map snd (folder_errors ffe)) + 1"
proof -
  let ?w = "\<lambda>files :: (string \<times> nat) list. sum_list (map snd files)"
  have "sum_list (map (\<lambda>kv. ?w (snd kv)) (upd folder [] (incr file) ffe)) + ?w (old_value ffe folder [])
      = sum_list (map (\<lambda>kv. ?w (snd kv)) ffe) + ?w (incr file (old_value ffe folder []))"
    by (rule sum_upd) simp
  then show ?thesis
    by (simp add: folder_errors_def case_prod_unfold comp_def incr_sum)
qed

lemma basename_no_sep: "sep \<notin> set (basename p)"
proof -
  let ?k = "length (takeWhile (\<lambda>x. x \<noteq> sep) (rev p))"
  have "?k \<le> length p" using length_takeWhile_le [of "\<lambda>x. x \<noteq> sep" "rev p"] by simp
  then have "basename p = rev (take ?k (rev p))"
    by (simp add: basename_def rfind_sep1_def rev_take)
  also have "take ?k (rev p) = takeWhile (\<lambda>x. x \<noteq> sep) (rev p)"
    by (rule takeWhile_eq_take [symmetric])
  finally show ?thesis by (auto dest: set_takeWhileD)
qed

lemma dirname_basename:
  "\<exists>slashes. p = dirname p @ slashes @ basename p \<and> set slashes \<subseteq> {sep}"
proof -
  let ?head = "take (rfind_sep1 p) p"
  have p: "p = ?head @ basename p" by (simp add: basename_def)
  show ?thesis
  proof (cases "?head \<noteq> [] \<and> ?head \<noteq> replicate (length ?head) sep")
    case False
    then have "dirname p = ?head" by (auto simp: dirname_def Let_def)
    with p have "p = dirname p @ [] @ basename p \<and> set ([] :: string) \<subseteq> {sep}" by simp
    then show ?thesis by blast
  next
    case True
    then have d: "dirname p = rev (dropWhile (\<lambda>x. x = sep) (rev ?head))"
      by (simp add: dirname_def Let_def rstrip_sep_def)
    let ?sl = "rev (takeWhile (\<lambda>x. x = sep) (rev ?head))"
    have "dirname p @ ?sl
        = rev (takeWhile (\<lambda>x. x = sep) (rev ?head) @ dropWhile (\<lambda>x. x = sep) (rev ?head))"
      by (simp only: d rev_append)
    also have "\<dots> = rev (rev ?head)" by (simp only: takeWhile_dropWhile_id)
    finally have "?head = dirname p @ ?sl" by simp
    with p have "p = dirname p @ ?sl @ basename p" by (metis append_assoc)
    moreover have "set ?sl \<subseteq> {sep}" by (auto dest: set_takeWhileD)
    ultimately show ?thesis by blast
  qed
qed

lemmas path_eval = dirname_def basename_def rfind_sep1_def rstrip_sep_def sep_def Let_def

lemma example_counted:
  "count_line [] ''  src/a/x.ts: line 1, col 2, Error - Unexpected any  ''
     = [(''src/a'', [(''src/a/x.ts'', 1)])]"
  by (simp add: count_line_def file_pattern_def strip_def match_group_def incr_def regex_eval path_eval)

lemma example_ignored: "count_line [] ''3 problems'' = []"
  by (simp add: count_line_def file_pattern_def strip_def regex_eval)

subsection \<open>The files of the aggregation and the lines of the display\<close>

lemma file_rules_store_rule:
  "file_rules (store_rule d f issues_by_dir rc) key
     = (if key = (d, f) then upd (fst rc) 0 (\<lambda>_. snd rc) (file_rules issues_by_dir key)
        else file_rules issues_by_dir key)"
  by (cases key) (auto simp: file_rules_def store_rule_def lookup_upd)

lemma file_rules_store_file_other:
  "key \<noteq> (d, f) \<Longrightarrow>
   file_rules (foldl (store_rule d f) issues_by_dir file_issues) key = file_rules issues_by_dir key"
  by (induction file_issues arbitrary: issues_by_dir) (simp_all add: file_rules_store_rule)

lemma stored_file_rules: "stored issues_by_dir d f r = old_value (file_rules issues_by_dir (d, f)) r 0"
  by (simp add: stored_def file_rules_def)

lemma store_file_rules_total:
  "distinct (map fst file_issues) \<Longrightarrow> \<forall>r \<in> fst ` set file_issues. stored issues_by_dir d f r = 0 \<Longrightarrow>
   rules_total (file_rules (foldl (store_rule d f) issues_by_dir file_issues) (d, f))
     = rules_total (file_rules issues_by_dir (d, f)) + sum_list (map snd file_issues)"
proof (induction file_issues arbitrary: issues_by_dir)
  case Nil then show ?case by simp
next
  case (Cons a file_issues)
  obtain r n where a: "a = (r, n)" by (cases a)
  let ?rs = "file_rules issues_by_dir (d, f)"
  from Cons.prems a have z: "old_value ?rs r 0 = 0" by (simp add: stored_file_rules)
  have "rules_total (upd r 0 (\<lambda>_. n) ?rs) + old_value ?rs r 0 = rules_total ?rs + n"
    using sum_upd [of "\<lambda>x. x" 0 r "\<lambda>_. n" ?rs] by (simp add: rules_total_def)
  with z have g: "rules_total (file_rules (store_rule d f issues_by_dir (r, n)) (d, f)) = rules_total ?rs + n"
    by (simp add: file_rules_store_rule)
  have "\<forall>r' \<in> fst ` set file_issues. stored (store_rule d f issues_by_dir (r, n)) d f r' = 0"
    using Cons.prems a by (auto simp: store_rule_stored)
  moreover have "distinct (map fst file_issues)" using Cons.prems by simp
  ultimately have "rules_total (file_rules (foldl (store_rule d f) (store_rule d f issues_by_dir (r, n)) file_issues) (d, f))
     = rules_total (file_rules (store_rule d f issues_by_dir (r, n)) (d, f)) + sum_list (map snd file_issues)"
    by (rule Cons.IH [rotated])
  with g a show ?case by simp
qed

lemma store_rule_inner_distinct:
  assumes "inner_distinct issues_by_dir"
  shows "inner_distinct (store_rule d f issues_by_dir rc)"
proof -
  let ?files = "old_value issues_by_dir d []"
  from assms have a: "\<forall>files \<in> snd ` set issues_by_dir. distinct (map fst files)"
    by (simp add: inner_distinct_def)
  then have "distinct (map fst ?files)"
    by (rule old_value_in [where P = "\<lambda>fs. distinct (map fst fs)"]) simp
  then have "distinct (map fst (upd f [] (upd (fst rc) 0 (\<lambda>_. snd rc)) ?files))"
    by (rule distinct_upd)
  with a have "\<forall>files \<in> snd ` set (upd d [] (upd f [] (upd (fst rc) 0 (\<lambda>_. snd rc))) issues_by_dir).
      distinct (map fst files)"
    by (intro values_upd) simp_all
  then show ?thesis by (simp add: inner_distinct_def store_rule_def)
qed

lemma store_file_inner_distinct:
  "inner_distinct issues_by_dir \<Longrightarrow> inner_distinct (foldl (store_rule d f) issues_by_dir file_issues)"
  by (induction file_issues arbitrary: issues_by_dir) (simp_all add: store_rule_inner_distinct)

lemma file_rules_empty: "file_rules [] key = []"
  by (simp add: file_rules_def lookup_def)

lemma agg_files_init: "agg_files relpath [] ([], [], 0)"
  by (simp add: agg_files_def inner_distinct_def file_rules_empty)

lemma has_messages_the: "has_messages fr \<Longrightarrow> \<exists>m ms. messages fr = Some (m # ms) \<and> the_messages fr = m # ms"
  by (auto simp: has_messages_def the_messages_def split: option.splits list.splits)

lemma no_messages_the: "\<not> has_messages fr \<Longrightarrow> the_messages fr = []"
  by (auto simp: has_messages_def the_messages_def split: option.splits list.splits)

lemma file_step_files:
  assumes inv: "agg_files relpath handled st" and has: "has_messages fr"
    and new: "file_key relpath fr \<notin> file_key relpath ` set handled"
  shows "agg_files relpath (handled @ [fr]) (file_step relpath st fr)"
proof -
  obtain ibd rc t where st: "st = (ibd, rc, t)" by (cases st)
  from has_messages_the [OF has] obtain m ms where ms: "messages fr = Some (m # ms)"
    and tm: "the_messages fr = m # ms" by blast
  let ?d = "dirname (relpath (filePath fr))"
  let ?f = "basename (relpath (filePath fr))"
  have key: "file_key relpath fr = (?d, ?f)" by (simp add: file_key_def)
  obtain fi rc' t' where cm: "foldl count_message ([], rc, t) (m # ms) = (fi, rc', t')"
    by (cases "foldl count_message ([], rc, t) (m # ms)")
  have step: "file_step relpath st fr = (foldl (store_rule ?d ?f) ibd fi, rc', t')"
    using st ms cm by (simp add: file_step_def Let_def)
  from inv st have idist: "inner_distinct ibd"
    and unseen: "\<forall>key. key \<notin> file_key relpath ` set handled \<longrightarrow> file_rules ibd key = []"
    and seen: "\<forall>fr \<in> set handled. rules_total (file_rules ibd (file_key relpath fr)) = length (the_messages fr)"
    and tot: "t = sum_list (map (\<lambda>fr. length (the_messages fr)) handled)"
    by (simp_all add: agg_files_def)
  from count_messages [OF cm] have
    t': "t' = t + length (m # ms)" and sfi: "sum_list (map snd fi) = length (m # ms)"
    and dfi: "distinct (map fst fi)"
    by simp_all
  from new unseen key have empty: "file_rules ibd (?d, ?f) = []" by simp
  then have "\<forall>r \<in> fst ` set fi. stored ibd ?d ?f r = 0"
    by (simp add: stored_file_rules old_value_def)
  with dfi have "rules_total (file_rules (foldl (store_rule ?d ?f) ibd fi) (?d, ?f))
      = rules_total (file_rules ibd (?d, ?f)) + sum_list (map snd fi)"
    by (rule store_file_rules_total)
  with empty sfi tm have this_file:
    "rules_total (file_rules (foldl (store_rule ?d ?f) ibd fi) (?d, ?f)) = length (the_messages fr)"
    by (simp add: rules_total_def)
  have other: "file_rules (foldl (store_rule ?d ?f) ibd fi) k = file_rules ibd k" if "k \<noteq> (?d, ?f)" for k
    using that by (rule file_rules_store_file_other)
  have a: "inner_distinct (foldl (store_rule ?d ?f) ibd fi)"
    using idist by (rule store_file_inner_distinct)
  have b: "\<forall>k. k \<notin> file_key relpath ` set (handled @ [fr]) \<longrightarrow>
      file_rules (foldl (store_rule ?d ?f) ibd fi) k = []"
    using unseen other key by auto
  have c: "\<forall>fr' \<in> set (handled @ [fr]).
      rules_total (file_rules (foldl (store_rule ?d ?f) ibd fi) (file_key relpath fr')) = length (the_messages fr')"
  proof
    fix fr' assume "fr' \<in> set (handled @ [fr])"
    then consider "fr' = fr" | "fr' \<in> set handled" by auto
    then show "rules_total (file_rules (foldl (store_rule ?d ?f) ibd fi) (file_key relpath fr')) = length (the_messages fr')"
    proof cases
      case 1 with this_file key show ?thesis by simp
    next
      case 2
      then have "file_key relpath fr' \<in> file_key relpath ` set handled" by (rule imageI)
      with new have "file_key relpath fr' \<noteq> (?d, ?f)" unfolding key by metis
      with other seen 2 show ?thesis by simp
    qed
  qed
  have d: "t' = sum_list (map (\<lambda>fr. length (the_messages fr)) (handled @ [fr]))"
    using t' tot tm by simp
  from a b c d show ?thesis unfolding step agg_files_def by simp
qed

lemma aggregate_files_gen:
  "agg_inv (file_key relpath ` set handled) st \<Longrightarrow> agg_files relpath handled st \<Longrightarrow>
   distinct (map (file_key relpath) (handled @ filter has_messages report)) \<Longrightarrow>
   agg_inv (file_key relpath ` set (handled @ filter has_messages report)) (foldl (file_step relpath) st report)
   \<and> agg_files relpath (handled @ filter has_messages report) (foldl (file_step relpath) st report)"
proof (induction report arbitrary: handled st)
  case Nil then show ?case by simp
next
  case (Cons fr report)
  show ?case
  proof (cases "has_messages fr")
    case False
    with Cons.prems Cons.IH [of handled st] show ?thesis by (simp add: file_step_skip)
  next
    case True
    with Cons.prems(3) have new: "file_key relpath fr \<notin> file_key relpath ` set handled" by auto
    have i1: "agg_inv (insert (file_key relpath fr) (file_key relpath ` set handled)) (file_step relpath st fr)"
      using Cons.prems(1) True new by (rule file_step_inv)
    then have i1': "agg_inv (file_key relpath ` set (handled @ [fr])) (file_step relpath st fr)" by simp
    have i2: "agg_files relpath (handled @ [fr]) (file_step relpath st fr)"
      using Cons.prems(2) True new by (rule file_step_files)
    from Cons.prems(3) True have
      "distinct (map (file_key relpath) ((handled @ [fr]) @ filter has_messages report))" by simp
    from Cons.IH [OF i1' i2 this] True show ?thesis by simp
  qed
qed

lemma aggregate_files:
  assumes "well_formed_report relpath report"
  shows "agg_inv (file_key relpath ` set (filter has_messages report)) (aggregate relpath report)
    \<and> agg_files relpath (filter has_messages report) (aggregate relpath report)"
proof -
  have "agg_inv (file_key relpath ` set []) ([], [], 0)" using agg_inv_init by simp
  from aggregate_files_gen [OF this agg_files_init, of report] assms
  show ?thesis by (simp add: aggregate_def well_formed_report_def)
qed

lemma sum_messages_filter:
  "sum_list (map (\<lambda>fr. length (the_messages fr)) (filter has_messages report))
     = sum_list (map (\<lambda>fr. length (the_messages fr)) report)"
  by (induction report) (simp_all add: no_messages_the)

lemma lookup_in: "lookup m k \<noteq> [] \<Longrightarrow> (k, lookup m k) \<in> set m"
  by (auto simp: lookup_def split: option.splits dest: map_of_SomeD)

lemma distinct_sorted_desc_keys:
  "distinct (map fst xs) \<Longrightarrow> distinct (map fst (sorted_desc xs))"
proof -
  assume "distinct (map fst xs)"
  moreover have "mset (map fst (sorted_desc xs)) = mset (map fst xs)"
    by (simp add: mset_sorted_desc)
  ultimately show ?thesis by (metis mset_eq_imp_distinct_iff)
qed

lemma display_names:
  assumes a: "display_analysis ibd rc tot = Inr a" and ok: "issues_ok ibd" and idist: "inner_distinct ibd"
  shows "distinct (map dl_name (an_dirs a))"
    and "\<forall>dl \<in> set (an_dirs a). distinct (map fl_name (dl_files dl))"
    and "\<forall>dl \<in> set (an_dirs a). \<forall>fl \<in> set (dl_files dl).
           file_rules ibd (dl_name dl, fl_name fl) \<noteq> []
           \<and> fl_total fl = rules_total (file_rules ibd (dl_name dl, fl_name fl))"
    and "\<forall>key. file_rules ibd key \<noteq> [] \<longrightarrow>
           (\<exists>dl \<in> set (an_dirs a). dl_name dl = fst key
              \<and> (\<exists>fl \<in> set (dl_files dl). fl_name fl = snd key
                     \<and> fl_total fl = rules_total (file_rules ibd key)))"
proof -
  from ok have dist: "distinct (map fst ibd)" and fok: "\<forall>files \<in> snd ` set ibd. files_ok files"
    by (simp_all add: issues_ok_def)
  have names: "map dl_name (an_dirs a) = map fst (sorted_desc (dir_totals ibd))"
    using analysis_dir_totals [OF a, symmetric] by (simp add: comp_def)
  have "map fst (dir_totals ibd) = map fst ibd" by (simp add: dir_totals_alt comp_def)
  with dist have "distinct (map fst (dir_totals ibd))" by simp
  then show "distinct (map dl_name (an_dirs a))"
    unfolding names by (rule distinct_sorted_desc_keys)
  have dl_facts: "\<exists>files. (dl_name dl, files) \<in> set ibd \<and> lookup ibd (dl_name dl) = files
      \<and> map (\<lambda>fl. (fl_name fl, fl_total fl)) (dl_files dl) = sorted_desc (file_totals files)"
    if "dl \<in> set (an_dirs a)" for dl
  proof -
    from analysis_dir_line [OF a that] obtain d n where dt: "(d, n) \<in> set (dir_totals ibd)"
      and sd: "show_dir ibd tot (d, n) = Inr dl" by auto
    from dt obtain files where files: "(d, files) \<in> set ibd" by (auto simp: dir_totals_alt)
    from dist files have l: "lookup ibd d = files" by (rule lookup_distinct)
    from show_dir_Inr [OF sd] have "dl_name dl = d" by simp
    with files l dir_lines_totals [OF sd] show ?thesis by auto
  qed
  show "\<forall>dl \<in> set (an_dirs a). distinct (map fl_name (dl_files dl))"
  proof
    fix dl assume "dl \<in> set (an_dirs a)"
    from dl_facts [OF this] obtain files where files: "(dl_name dl, files) \<in> set ibd"
      and m: "map (\<lambda>fl. (fl_name fl, fl_total fl)) (dl_files dl) = sorted_desc (file_totals files)"
      by blast
    have n: "map fl_name (dl_files dl) = map fst (map (\<lambda>fl. (fl_name fl, fl_total fl)) (dl_files dl))"
      by (simp add: comp_def)
    from idist files have "distinct (map fst files)" by (auto simp: inner_distinct_def)
    moreover have "map fst (file_totals files) = map fst files" by (simp add: file_totals_alt comp_def)
    ultimately have "distinct (map fst (file_totals files))" by simp
    then show "distinct (map fl_name (dl_files dl))"
      unfolding n m by (rule distinct_sorted_desc_keys)
  qed
  show "\<forall>dl \<in> set (an_dirs a). \<forall>fl \<in> set (dl_files dl).
           file_rules ibd (dl_name dl, fl_name fl) \<noteq> []
           \<and> fl_total fl = rules_total (file_rules ibd (dl_name dl, fl_name fl))"
  proof (intro ballI)
    fix dl fl assume dl: "dl \<in> set (an_dirs a)" and fl: "fl \<in> set (dl_files dl)"
    from dl_facts [OF dl] obtain files where files: "(dl_name dl, files) \<in> set ibd"
      and l: "lookup ibd (dl_name dl) = files"
      and m: "map (\<lambda>fl. (fl_name fl, fl_total fl)) (dl_files dl) = sorted_desc (file_totals files)"
      by blast
    from fl have "(fl_name fl, fl_total fl) \<in> set (map (\<lambda>fl. (fl_name fl, fl_total fl)) (dl_files dl))"
      by auto
    then have "(fl_name fl, fl_total fl) \<in> set (file_totals files)"
      unfolding m by (simp add: set_sorted_desc)
    then obtain rs where rs: "(fl_name fl, rs) \<in> set files" and t: "fl_total fl = rules_total rs"
      by (auto simp: file_totals_alt)
    from idist files have "distinct (map fst files)" by (auto simp: inner_distinct_def)
    from this rs have lf: "lookup files (fl_name fl) = rs" by (rule lookup_distinct)
    from fok files have "files_ok files" by force
    with rs have "rules_ok rs" by (force simp: files_ok_def)
    then have "rs \<noteq> []" by (simp add: rules_ok_def)
    with l lf t show "file_rules ibd (dl_name dl, fl_name fl) \<noteq> []
           \<and> fl_total fl = rules_total (file_rules ibd (dl_name dl, fl_name fl))"
      by (simp add: file_rules_def)
  qed
  show "\<forall>key. file_rules ibd key \<noteq> [] \<longrightarrow>
           (\<exists>dl \<in> set (an_dirs a). dl_name dl = fst key
              \<and> (\<exists>fl \<in> set (dl_files dl). fl_name fl = snd key
                     \<and> fl_total fl = rules_total (file_rules ibd key)))"
  proof (intro allI impI)
    fix key :: "string \<times> string" assume ne: "file_rules ibd key \<noteq> []"
    obtain d f where key: "key = (d, f)" by (cases key)
    let ?files = "lookup ibd d"
    let ?rs = "lookup ?files f"
    from ne key have rs_ne: "?rs \<noteq> []" by (simp add: file_rules_def)
    then have "?files \<noteq> []" by (auto simp: lookup_def)
    then have in_ibd: "(d, ?files) \<in> set ibd" by (rule lookup_in)
    from rs_ne have in_files: "(f, ?rs) \<in> set ?files" by (rule lookup_in)
    from in_ibd have "(d, files_total ?files) \<in> set (sorted_desc (dir_totals ibd))"
      by (force simp: dir_totals_alt set_sorted_desc)
    then have "(d, files_total ?files) \<in> set (map (\<lambda>dl. (dl_name dl, dl_total dl)) (an_dirs a))"
      by (simp only: analysis_dir_totals [OF a])
    then obtain dl where dl: "dl \<in> set (an_dirs a)" and dn: "dl_name dl = d" by auto
    from dl_facts [OF dl] dn obtain files where l: "lookup ibd d = files"
      and m: "map (\<lambda>fl. (fl_name fl, fl_total fl)) (dl_files dl) = sorted_desc (file_totals files)"
      by auto
    from in_files l have "(f, rules_total ?rs) \<in> set (sorted_desc (file_totals files))"
      by (force simp: file_totals_alt set_sorted_desc)
    then have "(f, rules_total ?rs) \<in> set (map (\<lambda>fl. (fl_name fl, fl_total fl)) (dl_files dl))"
      by (simp only: m)
    then obtain fl where "fl \<in> set (dl_files dl)" "fl_name fl = f" "fl_total fl = rules_total ?rs"
      by auto
    with dl dn key show "\<exists>dl \<in> set (an_dirs a). dl_name dl = fst key
              \<and> (\<exists>fl \<in> set (dl_files dl). fl_name fl = snd key
                     \<and> fl_total fl = rules_total (file_rules ibd key))"
      by (auto simp: file_rules_def)
  qed
qed

lemma count_line_None: "counted_path l = None \<Longrightarrow> count_line ffe l = ffe"
  by (cases "match_at file_pattern (None, strip l)") (simp_all add: count_line_def counted_path_def split_beta)

lemma count_line_Some:
  "counted_path l = Some p \<Longrightarrow> count_line ffe l = upd (dirname p) [] (incr p) ffe"
  by (cases "match_at file_pattern (None, strip l)")
     (auto simp: count_line_def counted_path_def Let_def split_beta)

lemma counted_path_None: "counted_path l = None \<longleftrightarrow> \<not> report_line_shape (strip l)"
proof -
  have "counted_path l = None \<longleftrightarrow> match_at file_pattern (None, strip l) = None"
    by (cases "match_at file_pattern (None, strip l)") (simp_all add: counted_path_def split_beta)
  also have "\<dots> \<longleftrightarrow> (\<forall>u v gs. strip l = u @ v \<longrightarrow> \<not> items_ok file_pattern None u v gs)"
    by (rule match_at_None_iff)
  also have "\<dots> \<longleftrightarrow> \<not> report_line_shape (strip l)"
    by (simp only: shape_iff_items not_ex de_Morgan_conj not_not imp_conv_disj)
  finally show ?thesis .
qed

lemma count_line_total:
  "sum_list (map snd (folder_errors (count_line ffe l)))
     = sum_list (map snd (folder_errors ffe)) + (if report_line_shape (strip l) then 1 else 0)"
proof (cases "counted_path l")
  case None
  then have "\<not> report_line_shape (strip l)" using counted_path_None [of l] by auto
  with None show ?thesis by (simp add: count_line_None)
next
  case (Some p)
  then have "counted_path l \<noteq> None" by simp
  then have "report_line_shape (strip l)" using counted_path_None [of l] by auto
  with Some show ?thesis by (simp add: count_line_Some count_total_upd)
qed

lemma count_lines_total:
  "sum_list (map snd (folder_errors (foldl count_line ffe ls)))
     = sum_list (map snd (folder_errors ffe)) + length (filter (\<lambda>l. report_line_shape (strip l)) ls)"
  by (induction ls arbitrary: ffe) (simp_all add: count_line_total)

lemma stored_count_step:
  "stored_count (upd (dirname q) [] (incr q) ffe) d p
     = (if d = dirname q \<and> p = q then stored_count ffe d p + 1 else stored_count ffe d p)"
  by (simp add: stored_count_def lookup_upd incr_def old_value_upd)

lemma stored_count_lines:
  "stored_count (foldl count_line ffe ls) d p
     = stored_count ffe d p + (if d = dirname p then lines_of ls p else 0)"
proof (induction ls arbitrary: ffe)
  case Nil then show ?case by (simp add: lines_of_def)
next
  case (Cons l ls)
  show ?case
  proof (cases "counted_path l")
    case None
    with Cons.IH [of ffe] show ?thesis by (simp add: count_line_None lines_of_def)
  next
    case (Some q)
    with Cons.IH [of "upd (dirname q) [] (incr q) ffe"] show ?thesis
      by (simp add: count_line_Some lines_of_def stored_count_step)
  qed
qed

lemma text_ok_step: "text_ok ffe \<Longrightarrow> text_ok (count_line ffe l)"
proof (cases "counted_path l")
  case None
  assume "text_ok ffe" with None show ?thesis by (simp add: count_line_None)
next
  case (Some q)
  assume ok: "text_ok ffe"
  let ?files = "old_value ffe (dirname q) []"
  from ok have a: "\<forall>files \<in> snd ` set ffe. distinct (map fst files) \<and> positive files"
    and dist: "distinct (map fst ffe)" by (simp_all add: text_ok_def)
  from a have "distinct (map fst ?files) \<and> positive ?files"
    by (rule old_value_in [where P = "\<lambda>fs. distinct (map fst fs) \<and> positive fs"])
       (simp add: positive_def)
  then have "distinct (map fst (incr q ?files)) \<and> positive (incr q ?files)"
    by (simp add: incr_distinct incr_positive)
  with a have "\<forall>files \<in> snd ` set (upd (dirname q) [] (incr q) ffe). distinct (map fst files) \<and> positive files"
    by (intro values_upd) simp_all
  with dist Some show ?thesis by (simp add: count_line_Some text_ok_def distinct_upd)
qed

lemma text_ok_lines: "text_ok ffe \<Longrightarrow> text_ok (foldl count_line ffe ls)"
  by (induction ls arbitrary: ffe) (simp_all add: text_ok_step)

lemma text_ok_empty: "text_ok []"
  by (simp add: text_ok_def)

lemma stored_count_empty: "stored_count [] d p = 0"
  by (simp add: stored_count_def lookup_def old_value_def)

lemma stored_count_entry:
  assumes "text_ok ffe" and "(folder, files) \<in> set ffe" and "(p, n) \<in> set files"
  shows "stored_count ffe folder p = n" and "0 < n"
proof -
  from assms(1,2) have l: "lookup ffe folder = files"
    by (intro lookup_distinct) (simp_all add: text_ok_def)
  from assms have d: "distinct (map fst files)" and pos: "positive files"
    by (auto simp: text_ok_def)
  from d assms(3) have "map_of files p = Some n" by simp
  with l show "stored_count ffe folder p = n" by (simp add: stored_count_def old_value_def)
  from pos assms(3) show "0 < n" by (force simp: positive_def)
qed

lemma stored_count_pos:
  assumes "0 < stored_count ffe folder p"
  shows "(folder, lookup ffe folder) \<in> set ffe \<and> (p, stored_count ffe folder p) \<in> set (lookup ffe folder)"
proof -
  from assms obtain n where m: "map_of (lookup ffe folder) p = Some n" and n: "stored_count ffe folder p = n"
    by (auto simp: stored_count_def old_value_def split: option.splits)
  then have in_files: "(p, n) \<in> set (lookup ffe folder)" by (auto dest: map_of_SomeD)
  then have "lookup ffe folder \<noteq> []" by auto
  then have "(folder, lookup ffe folder) \<in> set ffe" by (rule lookup_in)
  with in_files n show ?thesis by simp
qed

lemma folder_blocks_set:
  assumes "distinct (map fst ffe)"
  shows "set (folder_blocks ffe)
    = (\<lambda>(folder, files). (FolderLine (short_folder folder) (sum_list (map snd files)),
          map (\<lambda>(file_path, n). FileLine (basename file_path) n) (sorted_desc files))) ` set ffe"
proof -
  have "folder_block ffe (folder, sum_list (map snd files))
      = (FolderLine (short_folder folder) (sum_list (map snd files)),
          map (\<lambda>(file_path, n). FileLine (basename file_path) n) (sorted_desc files))"
    if "(folder, files) \<in> set ffe" for folder files
    using lookup_distinct [OF assms that] by (simp add: folder_block_def short_folder_def)
  then show ?thesis
    by (force simp: folder_blocks_def set_sorted_desc folder_errors_def image_iff)
qed

lemma text_blocks:
  fixes ls :: "string list"
  defines "blocks \<equiv> folder_blocks (foldl count_line [] ls)"
  shows "\<forall>hb \<in> set blocks. line_count (fst hb) = sum_list (map line_count (snd hb))"
    and "sum_list (map (\<lambda>hb. line_count (fst hb)) blocks)
           = length (filter (\<lambda>l. report_line_shape (strip l)) ls)"
    and "\<forall>p. 0 < lines_of ls p \<longrightarrow>
           (\<exists>hb \<in> set blocks. (\<exists>n. fst hb = FolderLine (short_folder (dirname p)) n)
              \<and> FileLine (basename p) (lines_of ls p) \<in> set (snd hb))"
    and "\<forall>hb \<in> set blocks. \<forall>fl \<in> set (snd hb).
           \<exists>p. 0 < lines_of ls p \<and> fl = FileLine (basename p) (lines_of ls p)
             \<and> (\<exists>n. fst hb = FolderLine (short_folder (dirname p)) n)"
proof -
  let ?ffe = "foldl count_line [] ls"
  have ok: "text_ok ?ffe" using text_ok_empty by (rule text_ok_lines)
  then have dist: "distinct (map fst ?ffe)" by (simp add: text_ok_def)
  have sc: "stored_count ?ffe d p = (if d = dirname p then lines_of ls p else 0)" for d p
    using stored_count_lines [of "[]" ls d p] by (simp add: stored_count_empty)
  show "\<forall>hb \<in> set blocks. line_count (fst hb) = sum_list (map line_count (snd hb))"
    unfolding blocks_def using dist by (auto dest: folder_block_sum)
  have "map (\<lambda>hb. line_count (fst hb)) blocks = map snd (sorted_desc (folder_errors ?ffe))"
    by (simp add: blocks_def folder_blocks_def folder_block_def line_count_def case_prod_unfold comp_def)
  then show "sum_list (map (\<lambda>hb. line_count (fst hb)) blocks)
           = length (filter (\<lambda>l. report_line_shape (strip l)) ls)"
    using count_lines_total [of "[]" ls] by (simp add: sum_sorted_desc folder_errors_def)
  show "\<forall>p. 0 < lines_of ls p \<longrightarrow>
           (\<exists>hb \<in> set blocks. (\<exists>n. fst hb = FolderLine (short_folder (dirname p)) n)
              \<and> FileLine (basename p) (lines_of ls p) \<in> set (snd hb))"
  proof (intro allI impI)
    fix p assume "0 < lines_of ls p"
    with sc [of "dirname p" p] have pos: "0 < stored_count ?ffe (dirname p) p"
      and eq: "stored_count ?ffe (dirname p) p = lines_of ls p" by simp_all
    from stored_count_pos [OF pos] eq have
      a: "(dirname p, lookup ?ffe (dirname p)) \<in> set ?ffe"
      and b: "(p, lines_of ls p) \<in> set (lookup ?ffe (dirname p))" by simp_all
    let ?hb = "(FolderLine (short_folder (dirname p)) (sum_list (map snd (lookup ?ffe (dirname p)))),
          map (\<lambda>(file_path, n). FileLine (basename file_path) n) (sorted_desc (lookup ?ffe (dirname p))))"
    from a have "?hb \<in> set blocks"
      unfolding blocks_def folder_blocks_set [OF dist] by force
    moreover from b have "FileLine (basename p) (lines_of ls p) \<in> set (snd ?hb)"
      by (force simp: set_sorted_desc)
    ultimately show "\<exists>hb \<in> set blocks. (\<exists>n. fst hb = FolderLine (short_folder (dirname p)) n)
              \<and> FileLine (basename p) (lines_of ls p) \<in> set (snd hb)"
      by (intro bexI [of _ ?hb]) auto
  qed
  show "\<forall>hb \<in> set blocks. \<forall>fl \<in> set (snd hb).
           \<exists>p. 0 < lines_of ls p \<and> fl = FileLine (basename p) (lines_of ls p)
             \<and> (\<exists>n. fst hb = FolderLine (short_folder (dirname p)) n)"
  proof (intro ballI)
    fix hb fl assume "hb \<in> set blocks" and fl: "fl \<in> set (snd hb)"
    then obtain folder files where in_ffe: "(folder, files) \<in> set ?ffe"
      and hb: "hb = (FolderLine (short_folder folder) (sum_list (map snd files)),
          map (\<lambda>(file_path, n). FileLine (basename file_path) n) (sorted_desc files))"
      unfolding blocks_def folder_blocks_set [OF dist] by auto
    from fl hb obtain p n where pn: "(p, n) \<in> set files" and f: "fl = FileLine (basename p) n"
      by (auto simp: set_sorted_desc)
    from stored_count_entry [OF ok in_ffe pn] have "stored_count ?ffe folder p = n" "0 < n" by simp_all
    with sc [of folder p] have "folder = dirname p" "n = lines_of ls p"
      by (auto split: if_splits)
    with \<open>0 < n\<close> f hb show "\<exists>p. 0 < lines_of ls p \<and> fl = FileLine (basename p) (lines_of ls p)
             \<and> (\<exists>n. fst hb = FolderLine (short_folder (dirname p)) n)"
      by auto
  qed
qed

lemma example_blocks:
  "folder_blocks (snd (parse_eslint_report_text (Lines example_lines)))
     = [(FolderLine ''a'' 3, [FileLine ''x.ts'' 2, FileLine ''y.ts'' 1])]"
  by (simp add: parse_eslint_report_text_def example_lines_def count_line_def file_pattern_def
      strip_def match_group_def incr_def regex_eval path_eval folder_blocks_def folder_block_def
      folder_errors_def sorted_desc_def lookup_def)

lemma example_lines_of: "lines_of example_lines ''src/a/x.ts'' = 2"
  by (simp add: lines_of_def counted_path_def example_lines_def file_pattern_def
      strip_def match_group_def regex_eval)

subsection \<open>A substitution of the declaration patterns only inserts underscores\<close>






lemma underscored_rounds_trans:
  "underscored_rounds v a b \<Longrightarrow> underscored_rounds v b c \<Longrightarrow> underscored_rounds v a c"
  by (induction rule: underscored_rounds.induct) (auto intro: underscored_rounds.intros)






subsection \<open>The property pattern of \<open>fix_no_explicit_any\<close>\<close>

lemma seq_ok_needs:
  "seq_ok as p u v \<Longrightarrow> One (Ch x) \<in> set as \<Longrightarrow> x \<in> set u"
proof (induction as arbitrary: p u)
  case Nil then show ?case by simp
next
  case (Cons a as)
  from Cons.prems(1) obtain u1 u2 where u: "u = u1 @ u2" and a: "atom_ok a p u1 (u2 @ v)"
    and r: "seq_ok as (lastc p u1) u2 v" by auto
  show ?case
  proof (cases "a = One (Ch x)")
    case True
    with a u show ?thesis by auto
  next
    case False
    with Cons.prems(2) have "One (Ch x) \<in> set as" by simp
    from Cons.IH [OF r this] u show ?thesis by simp
  qed
qed

lemma items_ok_needs:
  "items_ok r p u v gs \<Longrightarrow>
   A (One (Ch x)) \<in> set r \<or> (\<exists>alts. G alts \<in> set r \<and> (\<forall>alt \<in> set alts. One (Ch x) \<in> set alt)) \<Longrightarrow>
   x \<in> set u"
proof (induction r arbitrary: p u gs)
  case Nil then show ?case by simp
next
  case (Cons i r)
  show ?case
  proof (cases i)
    case (A a)
    with Cons.prems(1) obtain u1 u2 where u: "u = u1 @ u2" and a: "atom_ok a p u1 (u2 @ v)"
      and r: "items_ok r (lastc p u1) u2 v gs" by auto
    show ?thesis
    proof (cases "a = One (Ch x)")
      case True
      with a u show ?thesis by auto
    next
      case False
      with Cons.prems(2) A have
        "A (One (Ch x)) \<in> set r \<or> (\<exists>alts. G alts \<in> set r \<and> (\<forall>alt \<in> set alts. One (Ch x) \<in> set alt))"
        by auto
      from Cons.IH [OF r this] u show ?thesis by simp
    qed
  next
    case (G alts)
    with Cons.prems(1) obtain u1 u2 gs' alt where u: "u = u1 @ u2" and alt: "alt \<in> set alts"
      and s: "seq_ok alt p u1 (u2 @ v)" and r: "items_ok r (lastc p u1) u2 v gs'" by auto
    show ?thesis
    proof (cases "\<forall>alt \<in> set alts. One (Ch x) \<in> set alt")
      case True
      with alt have "One (Ch x) \<in> set alt" by simp
      from seq_ok_needs [OF s this] u show ?thesis by simp
    next
      case False
      with Cons.prems(2) G have
        "A (One (Ch x)) \<in> set r \<or> (\<exists>alts. G alts \<in> set r \<and> (\<forall>alt \<in> set alts. One (Ch x) \<in> set alt))"
        by auto
      from Cons.IH [OF r this] u show ?thesis by simp
    qed
  qed
qed

lemma search_from_match:
  "search_from r p s \<Longrightarrow> \<exists>pre u v gs p'. s = pre @ u @ v \<and> items_ok r p' u v gs"
proof (induction s arbitrary: p)
  case Nil
  then have "match_at r (p, []) \<noteq> None" by simp
  then obtain u v gs where "[] = u @ v" "items_ok r p u v gs"
    unfolding match_at_None_iff by blast
  then have "[] = [] @ u @ v \<and> items_ok r p u v gs" by simp
  then show ?case by blast
next
  case (Cons x xs)
  show ?case
  proof (cases "match_at r (p, x # xs) = None")
    case False
    then obtain u v gs where "x # xs = u @ v" "items_ok r p u v gs"
      unfolding match_at_None_iff by blast
    then have "x # xs = [] @ u @ v \<and> items_ok r p u v gs" by simp
    then show ?thesis by blast
  next
    case True
    with Cons.prems have "search_from r (Some x) xs" by simp
    from Cons.IH [OF this] obtain pre u v gs p' where "xs = pre @ u @ v" "items_ok r p' u v gs"
      by blast
    then have "x # xs = (x # pre) @ u @ v \<and> items_ok r p' u v gs" by simp
    then show ?thesis by blast
  qed
qed

lemma no_search_needs:
  assumes "A (One (Ch x)) \<in> set r \<or> (\<exists>alts. G alts \<in> set r \<and> (\<forall>alt \<in> set alts. One (Ch x) \<in> set alt))"
    and "x \<notin> set s"
  shows "\<not> search r s"
proof
  assume "search r s"
  then obtain pre u v gs p' where s: "s = pre @ u @ v" and ok: "items_ok r p' u v gs"
    unfolding search_def by (blast dest: search_from_match)
  from items_ok_needs [OF ok assms(1)] s assms(2) show False by simp
qed

lemma subn_no_match: "\<not> search r s \<Longrightarrow> subn r t s = (s, 0)"
  by (simp add: subn_def search_def subn_from_no_match)

lemma run_split:
  assumes "list_all P g" "list_all P h" "g @ a = h @ b"
    and "a \<noteq> [] \<and> \<not> P (hd a)" and "b \<noteq> [] \<and> \<not> P (hd b)"
  shows "g = h \<and> a = b"
proof -
  from assms(1,4) have "takeWhile P (g @ a) = g" "dropWhile P (g @ a) = a"
    by (cases a; simp add: list_all_iff takeWhile_append2 dropWhile_append2)+
  moreover from assms(2,5) have "takeWhile P (h @ b) = h" "dropWhile P (h @ b) = b"
    by (cases b; simp add: list_all_iff takeWhile_append2 dropWhile_append2)+
  ultimately show ?thesis using assms(3) by simp
qed

lemma items_ok_word:
  "items_ok (G [[Plus Wd]] # r) p u v gs
     \<longleftrightarrow> (\<exists>g u2 gs'. u = g @ u2 \<and> gs = g # gs' \<and> g \<noteq> [] \<and> list_all is_word g
            \<and> items_ok r (lastc p g) u2 v gs')"
  by (auto simp: list_all_iff)

lemma items_ok_opt:
  "items_ok (A (Opt (Ch x)) # r) p u v gs
     \<longleftrightarrow> (\<exists>q u2. u = q @ u2 \<and> (q = [] \<or> q = [x]) \<and> items_ok r (lastc p q) u2 v gs)"
  by (simp only: items_ok.simps atom_ok.simps cls_ok.simps) metis

lemma items_ok_ws0:
  "items_ok (ws0 # r) p u v gs
     \<longleftrightarrow> (\<exists>w u2. u = w @ u2 \<and> list_all is_space w \<and> items_ok r (lastc p w) u2 v gs)"
  by (simp add: ws0_def)

lemma items_ok_lit_end: "items_ok (L l) p u v gs \<longleftrightarrow> u = l \<and> gs = []"
  using items_ok_lit [of l "[]" p u v gs] by auto

lemma property_pattern_ok:
  "items_ok ([G [[Plus Wd]], A (Opt (Ch CHR ''?'')), ch CHR '':'', ws0] @ L ''any;'') p u v gs \<longleftrightarrow>
     (\<exists>g q w. u = g @ q @ '':'' @ w @ ''any;'' \<and> gs = [g] \<and> g \<noteq> [] \<and> list_all is_word g
        \<and> (q = [] \<or> q = ''?'') \<and> list_all is_space w)"
  apply (simp only: append_Cons append_Nil items_ok_word items_ok_opt items_ok_ch items_ok_ws0
      items_ok_lit_end)
  apply (rule iffI)
   apply (elim exE conjE)
   apply hypsubst
   apply (intro exI conjI)
        apply (rule refl | assumption)+
  apply (elim exE conjE)
  apply hypsubst
  apply (intro exI conjI)
          apply (rule refl | assumption)+
  done

lemma not_word_chars:
  "\<not> is_word CHR '':''" "\<not> is_word CHR ''?''" "\<not> is_word CHR ''(''" "\<not> is_word CHR '')''"
  "\<not> is_word CHR ''=''" "\<not> is_word CHR ''[''" "\<not> is_word CHR ''<''" "\<not> is_word CHR '',''"
  "\<not> is_word CHR '';''" "\<not> is_word CHR '' ''"
  by (simp_all add: is_word_def isalnum_def)

lemma not_space_chars:
  "\<not> is_space CHR '':''" "\<not> is_space CHR ''?''" "\<not> is_space CHR ''(''" "\<not> is_space CHR '')''"
  "\<not> is_space CHR ''=''" "\<not> is_space CHR ''[''" "\<not> is_space CHR ''<''" "\<not> is_space CHR '',''"
  "\<not> is_space CHR '';''" "\<not> is_space CHR ''a''" "\<not> is_space CHR ''u''"
  by (simp_all add: is_space_def)

lemma property_match:
  assumes "name \<noteq> []" "list_all is_word name" "list_all is_space w"
  shows "match_at ([G [[Plus Wd]], A (Opt (Ch CHR ''?'')), ch CHR '':'', ws0] @ L ''any;'')
           (p, name @ '':'' @ w @ ''any;'' @ rest) = Some ([name], (Some CHR '';'', rest))"
proof -
  let ?r = "[G [[Plus Wd]], A (Opt (Ch CHR ''?'')), ch CHR '':'', ws0] @ L ''any;''"
  let ?s = "name @ '':'' @ w @ ''any;'' @ rest"
  from assms have "items_ok ?r p (name @ [] @ '':'' @ w @ ''any;'') rest [name]"
    unfolding property_pattern_ok by blast
  moreover have "?s = (name @ [] @ '':'' @ w @ ''any;'') @ rest" by simp
  ultimately have "match_at ?r (p, ?s) \<noteq> None"
    unfolding match_at_None_iff by blast
  then obtain caps st where m: "match_at ?r (p, ?s) = Some (caps, st)" by (cases "match_at ?r (p, ?s)") auto
  from match_at_Some [OF m] obtain u v where s: "?s = u @ v" and st: "st = (lastc p u, v)"
    and ok: "items_ok ?r p u v caps" by blast
  from ok obtain g q w2 where u: "u = g @ q @ '':'' @ w2 @ ''any;''" and caps: "caps = [g]"
    and g: "g \<noteq> []" "list_all is_word g" and q: "q = [] \<or> q = ''?''" and w2: "list_all is_space w2"
    unfolding property_pattern_ok by blast
  from s u have e: "g @ (q @ '':'' @ w2 @ ''any;'' @ v) = name @ ('':'' @ w @ ''any;'' @ rest)" by simp
  from q have "q @ '':'' @ w2 @ ''any;'' @ v \<noteq> [] \<and> \<not> is_word (hd (q @ '':'' @ w2 @ ''any;'' @ v))"
    by (auto simp: not_word_chars)
  from run_split [OF g(2) assms(2) e this] have gn: "g = name"
    and e2: "q @ '':'' @ w2 @ ''any;'' @ v = '':'' @ w @ ''any;'' @ rest"
    by (simp_all add: not_word_chars)
  from e2 q have q0: "q = []" and e3: "w2 @ (''any;'' @ v) = w @ (''any;'' @ rest)" by auto
  from run_split [OF w2 assms(3) e3] have "w2 = w" "''any;'' @ v = ''any;'' @ rest"
    by (simp_all add: not_space_chars)
  then have v: "v = rest" by simp
  from u have "lastc p u = Some CHR '';''" by (simp add: lastc_def)
  with m st caps gn v show ?thesis by simp
qed

lemma property_no_empty:
  "match_at ([G [[Plus Wd]], A (Opt (Ch CHR ''?'')), ch CHR '':'', ws0] @ L ''any;'') (p, []) = None"
  unfolding match_at_None_iff property_pattern_ok by auto

lemma property_subn_from:
  assumes "name \<noteq> []" "list_all is_word name" "list_all is_space w"
  shows "subn_from ([G [[Plus Wd]], A (Opt (Ch CHR ''?'')), ch CHR '':'', ws0] @ L ''any;'')
           [B 1, T ''?: unknown;''] p (name @ '':'' @ w @ ''any;'' @ rest)
         = (name @ ''?: unknown;''
              @ fst (subn_from ([G [[Plus Wd]], A (Opt (Ch CHR ''?'')), ch CHR '':'', ws0] @ L ''any;'')
                      [B 1, T ''?: unknown;''] (Some CHR '';'') rest),
            Suc (snd (subn_from ([G [[Plus Wd]], A (Opt (Ch CHR ''?'')), ch CHR '':'', ws0] @ L ''any;'')
                      [B 1, T ''?: unknown;''] (Some CHR '';'') rest)))"
proof -
  from assms(1) have len: "length rest < length (name @ '':'' @ w @ ''any;'' @ rest)" by simp
  show ?thesis
    by (subst subn_from.simps)
       (simp only: property_match [OF assms] option.case prod.case len if_True Let_def expand.simps
          split_beta,
        simp)
qed

lemma property_subn:
  assumes "name \<noteq> []" "list_all is_word name" "list_all is_space w"
  shows "subn ([G [[Plus Wd]], A (Opt (Ch CHR ''?'')), ch CHR '':'', ws0] @ L ''any;'')
           [B 1, T ''?: unknown;''] (name @ '':'' @ w @ ''any;'') = (name @ ''?: unknown;'', 1)"
proof -
  let ?r = "[G [[Plus Wd]], A (Opt (Ch CHR ''?'')), ch CHR '':'', ws0] @ L ''any;''"
  have e: "subn_from ?r [B 1, T ''?: unknown;''] (Some CHR '';'') [] = ([], 0)"
    by (subst subn_from.simps) (simp only: property_no_empty option.case list.case)
  from property_subn_from [OF assms, of None "[]"] e show ?thesis
    by (simp add: subn_def)
qed

lemma apply_replacements_append:
  "apply_replacements (a @ b) st = apply_replacements b (apply_replacements a st)"
  by (simp add: apply_replacements_def)

lemma apply_replacements_one:
  "apply_replacements [(r, t)] (c, n) = (fst (subn r t c), n + snd (subn r t c))"
  by (simp add: apply_replacements_def)

lemma apply_replacements_unchanged:
  "\<forall>rt \<in> set rs. \<not> search (fst rt) c \<Longrightarrow> apply_replacements rs (c, n) = (c, n)"
proof (induction rs)
  case Nil then show ?case by (simp add: apply_replacements_def)
next
  case (Cons a rs)
  obtain r t where a: "a = (r, t)" by (cases a)
  with Cons.prems have "subn r t c = (c, 0)" by (simp add: subn_no_match)
  moreover have "apply_replacements (a # rs) (c, n)
      = apply_replacements rs (fst (subn r t c), n + snd (subn r t c))"
    by (simp add: apply_replacements_def a)
  ultimately show ?case using Cons by simp
qed

lemma replacements_split:
  "replacements = take 6 replacements
     @ [([G [[Plus Wd]], A (Opt (Ch CHR ''?'')), ch CHR '':'', ws0] @ L ''any;'', [B 1, T ''?: unknown;''])]
     @ take 6 (drop 7 replacements) @ drop 13 replacements"
  by (simp add: replacements_def)

lemma replacements_before:
  "\<forall>rt \<in> set (take 6 replacements). \<exists>x \<in> set ''()=''.
     A (One (Ch x)) \<in> set (fst rt) \<or> (\<exists>alts. G alts \<in> set (fst rt) \<and> (\<forall>alt \<in> set alts. One (Ch x) \<in> set alt))"
  by (simp add: replacements_def ch_def L_def lit_def ws0_def ws1_def)

lemma replacements_behind:
  "\<forall>rt \<in> set (take 6 (drop 7 replacements)). \<exists>x \<in> set ''[<,''.
     A (One (Ch x)) \<in> set (fst rt) \<or> (\<exists>alts. G alts \<in> set (fst rt) \<and> (\<forall>alt \<in> set alts. One (Ch x) \<in> set alt))"
  by (simp add: replacements_def ch_def L_def lit_def ws0_def ws1_def)
     (rule disjI2, rule disjI2, rule exI [of _ "[[Star Ws, One (Ch CHR '','')]]"], simp)

lemma replacements_keywords:
  "map fst (drop 13 replacements)
     = map (\<lambda>kw. L kw @ [A (Opt (Ch CHR ''?'')), ch CHR '':'', ws0] @ L ''any'')
         [''context'', ''options'', ''data'', ''hash'']"
  by (simp add: replacements_def)

lemma keyword_pattern_ok:
  assumes "items_ok (L kw @ [A (Opt (Ch CHR ''?'')), ch CHR '':'', ws0] @ L ''any'') p u v gs"
  shows "\<exists>a w. u = a @ '':'' @ w @ ''any'' \<and> list_all is_space w"
proof -
  from assms obtain q w where "u = kw @ q @ CHR '':'' # w @ ''any''" "list_all is_space w"
    by (simp only: items_ok_lit append_Cons append_Nil items_ok_opt items_ok_ch items_ok_ws0
        items_ok_lit_end) blast
  then have "u = (kw @ q) @ '':'' @ w @ ''any'' \<and> list_all is_space w" by simp
  then show ?thesis by blast
qed

lemma no_any_behind_colon:
  assumes "list_all is_word name" "list_all is_space w"
    and "name @ ''?: unknown;'' = pre @ (a @ '':'' @ w @ ''any'') @ v"
  shows False
proof -
  let ?P = "\<lambda>x. x \<noteq> CHR '':''"
  from assms(1) have n: "list_all ?P (name @ ''?'')"
    by (auto simp: list_all_iff not_word_chars)
  then have "filter (\<lambda>x. x = CHR '':'') name = []"
    by (auto simp: filter_empty_conv list_all_iff)
  then have "length (filter (\<lambda>x. x = CHR '':'') (name @ ''?: unknown;'')) = 1" by simp
  with assms(3) have "length (filter (\<lambda>x. x = CHR '':'') (pre @ a)) = 0" by simp
  then have x: "list_all ?P (pre @ a)"
    by (auto simp: filter_empty_conv list_all_iff)
  from assms(3) have "(name @ ''?'') @ ('': unknown;'') = (pre @ a) @ ('':'' @ w @ ''any'' @ v)" by simp
  from run_split [OF n x this] have "'': unknown;'' = '':'' @ w @ ''any'' @ v" by simp
  then have "w @ ''any'' @ v = '' unknown;''" by simp
  with assms(2) show False
    by (cases w; cases "tl w") (auto simp: not_space_chars)
qed

lemma replaced_property_stays:
  assumes "list_all is_word name"
  shows "\<forall>rt \<in> set (take 6 (drop 7 replacements) @ drop 13 replacements).
           \<not> search (fst rt) (name @ ''?: unknown;'')"
proof -
  have chars: "x \<notin> set (name @ ''?: unknown;'')" if "x \<in> set ''[<,''" for x
    using that assms by (auto simp: list_all_iff not_word_chars)
  have a: "\<not> search (fst rt) (name @ ''?: unknown;'')" if "rt \<in> set (take 6 (drop 7 replacements))" for rt
  proof -
    from replacements_behind that obtain x where "x \<in> set ''[<,''"
      and "A (One (Ch x)) \<in> set (fst rt) \<or> (\<exists>alts. G alts \<in> set (fst rt) \<and> (\<forall>alt \<in> set alts. One (Ch x) \<in> set alt))"
      by blast
    from this(2) chars [OF this(1)] show ?thesis by (rule no_search_needs)
  qed
  have b: "\<not> search (fst rt) (name @ ''?: unknown;'')" if "rt \<in> set (drop 13 replacements)" for rt
  proof
    assume s: "search (fst rt) (name @ ''?: unknown;'')"
    from that have "fst rt \<in> set (map fst (drop 13 replacements))" by simp
    then obtain kw where r: "fst rt = L kw @ [A (Opt (Ch CHR ''?'')), ch CHR '':'', ws0] @ L ''any''"
      unfolding replacements_keywords by auto
    from s obtain pre u v gs p' where e: "name @ ''?: unknown;'' = pre @ u @ v"
      and ok: "items_ok (fst rt) p' u v gs"
      unfolding search_def by (blast dest: search_from_match)
    from ok have "items_ok (L kw @ [A (Opt (Ch CHR ''?'')), ch CHR '':'', ws0] @ L ''any'') p' u v gs"
      unfolding r .
    from keyword_pattern_ok [OF this] obtain a w where "u = a @ '':'' @ w @ ''any''" "list_all is_space w"
      by blast
    with e no_any_behind_colon [OF assms, of w pre a v] show False by simp
  qed
  from a b show ?thesis by auto
qed

lemma property_not_before:
  assumes "list_all is_word name" "list_all is_space w"
  shows "\<forall>rt \<in> set (take 6 replacements). \<not> search (fst rt) (name @ '':'' @ w @ ''any;'')"
proof
  fix rt assume "rt \<in> set (take 6 replacements)"
  with replacements_before obtain x where x: "x \<in> set ''()=''"
    and n: "A (One (Ch x)) \<in> set (fst rt) \<or> (\<exists>alts. G alts \<in> set (fst rt) \<and> (\<forall>alt \<in> set alts. One (Ch x) \<in> set alt))"
    by blast
  from x assms have "x \<notin> set (name @ '':'' @ w @ ''any;'')"
    by (auto simp: list_all_iff not_word_chars not_space_chars)
  with n show "\<not> search (fst rt) (name @ '':'' @ w @ ''any;'')" by (rule no_search_needs)
qed

lemma replacements_property:
  "replacements ! 6
     = ([G [[Plus Wd]], A (Opt (Ch CHR ''?'')), ch CHR '':'', ws0] @ L ''any;'', [B 1, T ''?: unknown;''])"
  by (simp add: replacements_def)

subsection \<open>The claims\<close>

text \<open>
  C7. Running the declaration-pattern rewriter on \<open>const unused = 5;\<close> with the flagged
  identifier \<open>unused\<close> yields \<open>const _unused = 5;\<close>, and running it again on that result
  with the same identifier leaves the text unchanged, because \<open>_unused\<close> already occurs.
\<close>

theorem C7_const_unused_example:
  "fix_unused_vars_file [''unused''] ''const unused = 5;'' = ''const _unused = 5;''
   \<and> fix_unused_vars_file [''unused''] ''const _unused = 5;'' = ''const _unused = 5;''
   \<and> sublist ''_unused'' ''const _unused = 5;''"
  unfolding fix_unused_vars_file_def foldl.simps
  by (simp add: unused_eval regex_eval)





text \<open>
  C5, at the input where the code departs from it. The file ends with the line
  \<open>unused: typeof other_\<close> (no newline behind it) and the linter flags \<open>unused\<close> at line 2,
  column 1. The name is a standalone token there, yet nothing is rewritten: at column 1
  the test reads \<open>line[-1]\<close>, the last character of the line, which is an underscore.
\<close>

theorem C5_column_one_not_rewritten:
  "spec_standalone ''unused: typeof other_'' 0 ''unused''
   \<and> fix_unused_vars [''declare const'' @ [CHR 0x0A], ''unused: typeof other_''] [(''unused'', 2, 1)]
       = ([''declare const'' @ [CHR 0x0A], ''unused: typeof other_''], 0)"
  unfolding fix_unused_vars_def foldl.simps
  by (simp add: fix_unused_var_def is_standalone_def py_index_def py_slice_def isalnum_def
      spec_standalone_def is_word_def)

text \<open>
  C9, at the input where the code departs from it. For a report whose only file has an
  empty message list the analysis is printed with a total of zero and no percentage is
  computed, but \<open>main\<close> then dies of \<open>IndexError\<close> in its last \<open>print\<close>: the exit status
  is 1.
\<close>

theorem C9_empty_report_crashes:
  "main_json (\<lambda>p. p) (Report [\<lparr>filePath = ''/p/a.ts'', messages = Some []\<rparr>]) FileNotFound
     = ([Analysis \<lparr>an_total = 0, an_dirs = [], an_top_rules = []\<rparr>, Complete], Uncaught IndexError)
   \<and> exit_status (snd (main_json (\<lambda>p. p)
        (Report [\<lparr>filePath = ''/p/a.ts'', messages = Some []\<rparr>]) FileNotFound)) = 1"
  by (simp add: main_json_def generate_eslint_report_def parse_eslint_report_def aggregate_def
      file_step_def display_analysis_def dir_totals_def sorted_desc_def)

text \<open>
  C2, as stated, fails for the JSON aggregator: when \<open>eslint_report.json\<close> is missing
  (also after the generation step), \<open>parse_eslint_report\<close> returns nothing and the process
  exits with status 1.
\<close>

theorem C2_json_missing_report_exits_1:
  "parse_eslint_report (\<lambda>p. p) FileNotFound = ([ErrorFileNotFound], Inl (SysExit 1))
   \<and> exit_status (snd (main_json (\<lambda>p. p) FileNotFound FileNotFound)) = 1"
  by (simp add: main_json_def generate_eslint_report_def parse_eslint_report_def)

text \<open>
  C2, amended. The text aggregator, when its report file is missing, prints an error,
  returns the empty aggregation and the process exits with status 0. The JSON aggregator
  prints an error and exits with status 1 when its report holds malformed JSON, and also
  when the report is missing.
\<close>

theorem C2_missing_and_malformed_reports:
  "parse_eslint_report_text NotFound = ([ErrorNotFound], [])
   \<and> main_text NotFound = ([Analyzing, ErrorNotFound, NoIssuesFound, AnalysisComplete], 0)
   \<and> parse_eslint_report relpath InvalidJson = ([ErrorInvalidJson], Inl (SysExit 1))
   \<and> parse_eslint_report relpath FileNotFound = ([ErrorFileNotFound], Inl (SysExit 1))
   \<and> main_json relpath InvalidJson generated = ([ErrorInvalidJson], SysExit 1)
   \<and> main_json relpath FileNotFound InvalidJson
        = ([NoReportFound, ReportGenerated, ErrorInvalidJson], SysExit 1)
   \<and> main_json relpath FileNotFound FileNotFound
        = ([NoReportFound, ReportGenerated, ErrorFileNotFound], SysExit 1)
   \<and> exit_status (SysExit 1) = 1"
  by (simp add: main_text_def parse_eslint_report_text_def display_sorted_results_def
      main_json_def generate_eslint_report_def parse_eslint_report_def)

text \<open>
  C1. For every well-formed report, the total displayed for a directory is the sum of the
  totals of its files, and the displayed grand total is the sum of the totals of the
  directories.

  For the JSON aggregator, on a report in which no two entries with messages name the same
  file: \<open>display_analysis\<close> raises nothing; its \<open>Total Issues\<close> is \<open>total_issues\<close>, which is the
  number of messages of the report, and is the sum of the directory totals displayed; each
  directory total displayed is the sum of the file totals displayed under it; no directory
  and, under a directory, no file is displayed twice; every entry with messages is
  displayed, under its directory and file name, with its number of messages; and every
  file line displayed is that of an entry with messages.

  For the text aggregator, which prints no grand total, on any lines: the count in each
  folder heading is the sum of the counts of the file lines under it; the counts of all
  folder headings add up to the number of lines of the report's shape; every path with
  counted lines has a file line, under the heading of its folder, that shows the number of
  lines counted for it; and every file line displayed is such a line.
\<close>

theorem C1_totals_add_up:
  assumes "well_formed_report relpath report"
    and "aggregate relpath report = (issues_by_dir, rule_counts, total_issues)"
  shows "(\<exists>a. display_analysis issues_by_dir rule_counts total_issues = Inr a
            \<and> an_total a = total_issues
            \<and> total_issues = sum_list (map (\<lambda>fr. length (the_messages fr)) report)
            \<and> an_total a = sum_list (map dl_total (an_dirs a))
            \<and> (\<forall>dl \<in> set (an_dirs a). dl_total dl = sum_list (map fl_total (dl_files dl)))
            \<and> distinct (map dl_name (an_dirs a))
            \<and> (\<forall>dl \<in> set (an_dirs a). distinct (map fl_name (dl_files dl)))
            \<and> (\<forall>fr \<in> set report. has_messages fr \<longrightarrow>
                  (\<exists>dl \<in> set (an_dirs a). dl_name dl = fst (file_key relpath fr)
                     \<and> (\<exists>fl \<in> set (dl_files dl). fl_name fl = snd (file_key relpath fr)
                            \<and> fl_total fl = length (the_messages fr))))
            \<and> (\<forall>dl \<in> set (an_dirs a). \<forall>fl \<in> set (dl_files dl).
                  \<exists>fr \<in> set report. has_messages fr \<and> file_key relpath fr = (dl_name dl, fl_name fl)))
         \<and> (\<forall>hb \<in> set (folder_blocks (snd (parse_eslint_report_text (Lines ls)))).
              line_count (fst hb) = sum_list (map line_count (snd hb)))
         \<and> sum_list (map (\<lambda>hb. line_count (fst hb))
               (folder_blocks (snd (parse_eslint_report_text (Lines ls)))))
             = length (filter (\<lambda>l. report_line_shape (strip l)) ls)
         \<and> (\<forall>p. 0 < lines_of ls p \<longrightarrow>
               (\<exists>hb \<in> set (folder_blocks (snd (parse_eslint_report_text (Lines ls)))).
                  (\<exists>n. fst hb = FolderLine (short_folder (dirname p)) n)
                  \<and> FileLine (basename p) (lines_of ls p) \<in> set (snd hb)))
         \<and> (\<forall>hb \<in> set (folder_blocks (snd (parse_eslint_report_text (Lines ls)))).
              \<forall>fl \<in> set (snd hb).
                \<exists>p. 0 < lines_of ls p \<and> fl = FileLine (basename p) (lines_of ls p)
                  \<and> (\<exists>n. fst hb = FolderLine (short_folder (dirname p)) n))"
proof -
  let ?handled = "filter has_messages report"
  from aggregate_files [OF assms(1)] assms(2) have
    inv: "agg_inv (file_key relpath ` set ?handled) (issues_by_dir, rule_counts, total_issues)"
    and files: "agg_files relpath ?handled (issues_by_dir, rule_counts, total_issues)" by simp_all
  from inv have ok: "issues_ok issues_by_dir" by (simp add: agg_inv_def)
  from files have idist: "inner_distinct issues_by_dir"
    and unseen: "\<forall>key. key \<notin> file_key relpath ` set ?handled \<longrightarrow> file_rules issues_by_dir key = []"
    and seen: "\<forall>fr \<in> set ?handled.
        rules_total (file_rules issues_by_dir (file_key relpath fr)) = length (the_messages fr)"
    and tot: "total_issues = sum_list (map (\<lambda>fr. length (the_messages fr)) ?handled)"
    by (simp_all add: agg_files_def)
  from aggregate_display [OF assms] obtain a where
    a: "display_analysis issues_by_dir rule_counts total_issues = Inr a"
    and s1: "an_total a = sum_list (map dl_total (an_dirs a))"
    and s2: "\<forall>dl \<in> set (an_dirs a). dl_total dl = sum_list (map fl_total (dl_files dl))" by blast
  note names = display_names [OF a ok idist]
  have t1: "an_total a = total_issues" using display_analysis_Inr [OF a] by simp
  have t2: "total_issues = sum_list (map (\<lambda>fr. length (the_messages fr)) report)"
    using tot by (simp only: sum_messages_filter)
  have shown: "\<forall>fr \<in> set report. has_messages fr \<longrightarrow>
      (\<exists>dl \<in> set (an_dirs a). dl_name dl = fst (file_key relpath fr)
         \<and> (\<exists>fl \<in> set (dl_files dl). fl_name fl = snd (file_key relpath fr)
                \<and> fl_total fl = length (the_messages fr)))"
  proof (intro ballI impI)
    fix fr assume "fr \<in> set report" and has: "has_messages fr"
    then have "fr \<in> set ?handled" by simp
    with seen have rt: "rules_total (file_rules issues_by_dir (file_key relpath fr)) = length (the_messages fr)"
      by blast
    from has_messages_the [OF has] have "0 < length (the_messages fr)" by auto
    with rt have "file_rules issues_by_dir (file_key relpath fr) \<noteq> []"
      by (auto simp: rules_total_def)
    with names(4) rt show "\<exists>dl \<in> set (an_dirs a). dl_name dl = fst (file_key relpath fr)
         \<and> (\<exists>fl \<in> set (dl_files dl). fl_name fl = snd (file_key relpath fr)
                \<and> fl_total fl = length (the_messages fr))"
      by metis
  qed
  have only: "\<forall>dl \<in> set (an_dirs a). \<forall>fl \<in> set (dl_files dl).
      \<exists>fr \<in> set report. has_messages fr \<and> file_key relpath fr = (dl_name dl, fl_name fl)"
  proof (intro ballI)
    fix dl fl assume "dl \<in> set (an_dirs a)" "fl \<in> set (dl_files dl)"
    with names(3) have "file_rules issues_by_dir (dl_name dl, fl_name fl) \<noteq> []" by blast
    with unseen have "(dl_name dl, fl_name fl) \<in> file_key relpath ` set ?handled" by blast
    then show "\<exists>fr \<in> set report. has_messages fr \<and> file_key relpath fr = (dl_name dl, fl_name fl)"
      by auto
  qed
  have json: "\<exists>a. display_analysis issues_by_dir rule_counts total_issues = Inr a
            \<and> an_total a = total_issues
            \<and> total_issues = sum_list (map (\<lambda>fr. length (the_messages fr)) report)
            \<and> an_total a = sum_list (map dl_total (an_dirs a))
            \<and> (\<forall>dl \<in> set (an_dirs a). dl_total dl = sum_list (map fl_total (dl_files dl)))
            \<and> distinct (map dl_name (an_dirs a))
            \<and> (\<forall>dl \<in> set (an_dirs a). distinct (map fl_name (dl_files dl)))
            \<and> (\<forall>fr \<in> set report. has_messages fr \<longrightarrow>
                  (\<exists>dl \<in> set (an_dirs a). dl_name dl = fst (file_key relpath fr)
                     \<and> (\<exists>fl \<in> set (dl_files dl). fl_name fl = snd (file_key relpath fr)
                            \<and> fl_total fl = length (the_messages fr))))
            \<and> (\<forall>dl \<in> set (an_dirs a). \<forall>fl \<in> set (dl_files dl).
                  \<exists>fr \<in> set report. has_messages fr \<and> file_key relpath fr = (dl_name dl, fl_name fl))"
    using a t1 t2 s1 s2 names(1,2) shown only by blast
  have p: "snd (parse_eslint_report_text (Lines ls)) = foldl count_line [] ls"
    by (simp add: parse_eslint_report_text_def)
  from json text_blocks [of ls] show ?thesis unfolding p by blast
qed

theorem C1_totals_add_up_witness:
  "well_formed_report (\<lambda>p. p) example_report
   \<and> aggregate (\<lambda>p. p) example_report =
     ([(''src/a'', [(''x.ts'', [(Some ''r1'', 2), (Some ''r2'', 1)])]),
       (''src/b'', [(''y.ts'', [(Some ''unknown'', 1), (None, 1), (Some ''r1'', 2)]),
                    (''v.ts'', [(Some ''r3'', 1)])])],
      [(Some ''r1'', 4), (Some ''r2'', 1), (Some ''unknown'', 1), (None, 1), (Some ''r3'', 1)],
      8)
   \<and> display_analysis
         [(''src/a'', [(''x.ts'', [(Some ''r1'', 2), (Some ''r2'', 1)])]),
          (''src/b'', [(''y.ts'', [(Some ''unknown'', 1), (None, 1), (Some ''r1'', 2)]),
                       (''v.ts'', [(Some ''r3'', 1)])])]
         [(Some ''r1'', 4), (Some ''r2'', 1), (Some ''unknown'', 1), (None, 1), (Some ''r3'', 1)]
         8 = Inr example_analysis
   \<and> an_total example_analysis = 8
   \<and> sum_list (map (\<lambda>fr. length (the_messages fr)) example_report) = 8
   \<and> sum_list (map dl_total (an_dirs example_analysis)) = 8
   \<and> map dl_total (an_dirs example_analysis) = [5, 3]
   \<and> list_all (\<lambda>dl. dl_total dl = sum_list (map fl_total (dl_files dl))) (an_dirs example_analysis)
   \<and> map (\<lambda>dl. map fl_total (dl_files dl)) (an_dirs example_analysis) = [[4, 1], [3]]
   \<and> folder_blocks (snd (parse_eslint_report_text (Lines example_lines)))
       = [(FolderLine ''a'' 3, [FileLine ''x.ts'' 2, FileLine ''y.ts'' 1])]
   \<and> length (filter (\<lambda>l. report_line_shape (strip l)) example_lines) = 3
   \<and> lines_of example_lines ''src/a/x.ts'' = 2"
proof -
  from C1_totals_add_up [OF example_well_formed example_aggregate, of example_lines]
  obtain a where a: "display_analysis
         [(''src/a'', [(''x.ts'', [(Some ''r1'', 2), (Some ''r2'', 1)])]),
          (''src/b'', [(''y.ts'', [(Some ''unknown'', 1), (None, 1), (Some ''r1'', 2)]),
                       (''v.ts'', [(Some ''r3'', 1)])])]
         [(Some ''r1'', 4), (Some ''r2'', 1), (Some ''unknown'', 1), (None, 1), (Some ''r3'', 1)]
         8 = Inr a"
    and f1: "an_total a = 8"
    and f2: "8 = sum_list (map (\<lambda>fr. length (the_messages fr)) example_report)"
    and f3: "an_total a = sum_list (map dl_total (an_dirs a))"
    and f4: "\<forall>dl \<in> set (an_dirs a). dl_total dl = sum_list (map fl_total (dl_files dl))"
    and f5: "sum_list (map (\<lambda>hb. line_count (fst hb))
               (folder_blocks (snd (parse_eslint_report_text (Lines example_lines)))))
             = length (filter (\<lambda>l. report_line_shape (strip l)) example_lines)"
    by blast
  from a example_display have e: "a = example_analysis" by simp
  from f5 have "length (filter (\<lambda>l. report_line_shape (strip l)) example_lines) = 3"
    by (simp add: example_blocks line_count_def)
  moreover have "map dl_total (an_dirs example_analysis) = [5, 3]"
    and "map (\<lambda>dl. map fl_total (dl_files dl)) (an_dirs example_analysis) = [[4, 1], [3]]"
    by (simp_all add: example_analysis_def)
  ultimately show ?thesis
    using example_well_formed example_aggregate example_display f1 f2 f3 f4 example_blocks
      example_lines_of unfolding e
    by (simp add: list_all_iff)
qed

text \<open>
  C3. In what \<open>display_analysis\<close> prints, the directories come in non-increasing order of
  their totals; under each directory the files come in non-increasing order of their
  totals; under each file the rule lines come in non-increasing order of their counts, at
  most five of them, no rule left out has a larger count than a rule shown, and the line
  \<open>...and K more rule types\<close> is printed exactly when the file has more than five rules,
  with \<open>K\<close> the number of rules beyond five.
\<close>

theorem C3_display_order:
  assumes "display_analysis issues_by_dir rule_counts total_issues = Inr a"
  shows "sorted_wrt (\<ge>) (map dl_total (an_dirs a))
    \<and> (\<forall>dl \<in> set (an_dirs a).
          sorted_wrt (\<ge>) (map fl_total (dl_files dl))
          \<and> (\<forall>fl \<in> set (dl_files dl).
                sorted_wrt (\<ge>) (map snd (fl_rules fl))
                \<and> length (fl_rules fl) \<le> 5
                \<and> fl_more fl =
                    (if 5 < length (lookup (lookup issues_by_dir (dl_name dl)) (fl_name fl))
                     then Some (length (lookup (lookup issues_by_dir (dl_name dl)) (fl_name fl)) - 5)
                     else None)
                \<and> (\<exists>hidden. mset (fl_rules fl) + mset hidden
                                = mset (lookup (lookup issues_by_dir (dl_name dl)) (fl_name fl))
                      \<and> (\<forall>x \<in> set (fl_rules fl). \<forall>y \<in> set hidden. snd y \<le> snd x))))"
proof (intro conjI ballI)
  have "map dl_total (an_dirs a) = map snd (map (\<lambda>dl. (dl_name dl, dl_total dl)) (an_dirs a))"
    by (simp add: comp_def)
  also have "\<dots> = map snd (sorted_desc (dir_totals issues_by_dir))"
    by (simp only: analysis_dir_totals [OF assms])
  finally show "sorted_wrt (\<ge>) (map dl_total (an_dirs a))"
    using sorted_desc_sorted [of "dir_totals issues_by_dir"] by (simp add: sorted_wrt_map)
next
  fix dl assume dl: "dl \<in> set (an_dirs a)"
  from analysis_dir_line [OF assms dl] obtain d n
    where sd: "show_dir issues_by_dir total_issues (d, n) = Inr dl" by auto
  have "map fl_total (dl_files dl) = map snd (map (\<lambda>fl. (fl_name fl, fl_total fl)) (dl_files dl))"
    by (simp add: comp_def)
  also have "\<dots> = map snd (sorted_desc (file_totals (lookup issues_by_dir d)))"
    by (simp only: dir_lines_totals [OF sd])
  finally show "sorted_wrt (\<ge>) (map fl_total (dl_files dl))"
    using sorted_desc_sorted [of "file_totals (lookup issues_by_dir d)"] by (simp add: sorted_wrt_map)
  fix fl assume fl: "fl \<in> set (dl_files dl)"
  from show_dir_Inr [OF sd] have dn: "dl_name dl = d" by simp
  from dir_line_file_line [OF sd fl] obtain f m
    where sf: "show_file (lookup issues_by_dir d) n (f, m) = Inr fl" by auto
  let ?all = "lookup (lookup issues_by_dir d) f"
  from show_file_Inr [OF sf] have fname: "fl_name fl = f"
    and rules: "fl_rules fl = take 5 (sorted_desc ?all)"
    and more: "fl_more fl = (if 5 < length ?all then Some (length ?all - 5) else None)"
    by simp_all
  have s: "sorted_wrt (\<lambda>x y. snd x \<ge> snd y) (take 5 (sorted_desc ?all) @ drop 5 (sorted_desc ?all))"
    using sorted_desc_sorted [of ?all] by simp
  then have "sorted_wrt (\<lambda>x y. snd x \<ge> snd y) (take 5 (sorted_desc ?all))"
    unfolding sorted_wrt_append by simp
  then show "sorted_wrt (\<ge>) (map snd (fl_rules fl))"
    by (simp add: rules sorted_wrt_map)
  show "length (fl_rules fl) \<le> 5" by (simp add: rules)
  show "fl_more fl =
          (if 5 < length (lookup (lookup issues_by_dir (dl_name dl)) (fl_name fl))
           then Some (length (lookup (lookup issues_by_dir (dl_name dl)) (fl_name fl)) - 5)
           else None)"
    using more by (simp add: dn fname)
  have "mset (take 5 (sorted_desc ?all)) + mset (drop 5 (sorted_desc ?all)) = mset ?all"
    by (metis append_take_drop_id mset_append mset_sorted_desc)
  moreover from s have "\<forall>x \<in> set (take 5 (sorted_desc ?all)). \<forall>y \<in> set (drop 5 (sorted_desc ?all)). snd y \<le> snd x"
    unfolding sorted_wrt_append by simp
  ultimately show "\<exists>hidden. mset (fl_rules fl) + mset hidden
                                = mset (lookup (lookup issues_by_dir (dl_name dl)) (fl_name fl))
                      \<and> (\<forall>x \<in> set (fl_rules fl). \<forall>y \<in> set hidden. snd y \<le> snd x)"
    unfolding rules dn fname by blast
qed

theorem C3_display_order_witness:
  "display_analysis example_issues example_rules 75 = Inr example_display
   \<and> sorted_wrt (\<ge>) (map dl_total (an_dirs example_display))
   \<and> map dl_total (an_dirs example_display) = [40, 35]
   \<and> sorted_wrt (\<ge>) (map fl_total (dl_files example_a_lines))
   \<and> map fl_total (dl_files example_a_lines) = [20, 15]
   \<and> sorted_wrt (\<ge>) (map snd (fl_rules example_x_lines))
   \<and> map snd (fl_rules example_x_lines) = [5, 3, 2, 2, 1]
   \<and> length (lookup (lookup example_issues ''a'') ''x.ts'') = 7
   \<and> fl_more example_x_lines = Some 2"
proof -
  have a: "example_a_lines \<in> set (an_dirs example_display)"
    by (simp add: example_display_def)
  have x: "example_x_lines \<in> set (dl_files example_a_lines)"
    by (simp add: example_a_lines_def)
  have n: "dl_name example_a_lines = ''a''" "fl_name example_x_lines = ''x.ts''"
    by (simp_all add: example_a_lines_def example_x_lines_def)
  have l: "length (lookup (lookup example_issues ''a'') ''x.ts'') = 7"
    by (simp add: example_issues_def lookup_def)
  from C3_display_order [OF example_issues_display] a x
  have "sorted_wrt (\<ge>) (map dl_total (an_dirs example_display))"
    and "sorted_wrt (\<ge>) (map fl_total (dl_files example_a_lines))"
    and "sorted_wrt (\<ge>) (map snd (fl_rules example_x_lines))"
    and "fl_more example_x_lines =
           (if 5 < length (lookup (lookup example_issues (dl_name example_a_lines)) (fl_name example_x_lines))
            then Some (length (lookup (lookup example_issues (dl_name example_a_lines)) (fl_name example_x_lines)) - 5)
            else None)"
    by blast+
  with l n example_issues_display show ?thesis
    by (simp add: example_display_def example_a_lines_def example_x_lines_def)
qed

text \<open>
  C8. A line of the text report is counted if and only if, once stripped, it has the shape
  \<open><path>: line <n>, col <n>, (Error|Warning) - <message>\<close>. A line of that shape adds one to
  the count kept for the file \<open><path>\<close> under the key \<open>dirname(<path>)\<close>, and that key is
  the path without its final segment: the path is the key, then separators, then a final
  segment that holds no separator. Any other line leaves the aggregation as it is; no
  line raises an error.
\<close>

theorem C8_counted_lines:
  "(report_line_shape (strip line) \<longrightarrow>
      (\<exists>path t. strip line = path @ t \<and> path \<noteq> [] \<and> CHR 0x0A \<notin> set path \<and> report_line_tail t
         \<and> count_line folder_file_errors line
             = upd (dirname path) [] (incr path) folder_file_errors
         \<and> (\<exists>slashes. path = dirname path @ slashes @ basename path \<and> set slashes \<subseteq> {sep}
               \<and> sep \<notin> set (basename path)))
      \<and> sum_list (map snd (folder_errors (count_line folder_file_errors line)))
          = sum_list (map snd (folder_errors folder_file_errors)) + 1)
   \<and> (\<not> report_line_shape (strip line) \<longrightarrow> count_line folder_file_errors line = folder_file_errors)"
proof (cases "match_at file_pattern (None, strip line)")
  case None
  then have "\<not> report_line_shape (strip line)"
    unfolding shape_iff_items match_at_None_iff by blast
  moreover from None have "count_line folder_file_errors line = folder_file_errors"
    by (simp add: count_line_def)
  ultimately show ?thesis by simp
next
  case (Some m)
  obtain caps st where m: "m = (caps, st)" by (cases m)
  from match_file_pattern_Some [OF Some [unfolded m]] obtain path t where
    pt: "strip line = path @ t" "path \<noteq> []" "CHR 0x0A \<notin> set path" "report_line_tail t"
    and g: "match_group caps 1 = path" by blast
  from Some m g have c: "count_line folder_file_errors line
      = upd (dirname path) [] (incr path) folder_file_errors"
    by (simp add: count_line_def Let_def)
  from dirname_basename [of path] basename_no_sep [of path]
  have "\<exists>slashes. path = dirname path @ slashes @ basename path \<and> set slashes \<subseteq> {sep}
               \<and> sep \<notin> set (basename path)" by blast
  moreover from pt have "report_line_shape (strip line)"
    unfolding report_line_shape_def by blast
  ultimately show ?thesis using pt c by (auto simp: count_total_upd)
qed

theorem C8_counted_lines_witness:
  "report_line_shape (strip ''  src/a/x.ts: line 1, col 2, Error - Unexpected any  '')
   \<and> count_line [] ''  src/a/x.ts: line 1, col 2, Error - Unexpected any  ''
       = [(''src/a'', [(''src/a/x.ts'', 1)])]
   \<and> \<not> report_line_shape (strip ''3 problems'')
   \<and> count_line [] ''3 problems'' = []"
proof -
  have "report_line_shape (strip ''  src/a/x.ts: line 1, col 2, Error - Unexpected any  '')"
    using C8_counted_lines [of "''  src/a/x.ts: line 1, col 2, Error - Unexpected any  ''" "[]"]
      example_counted by auto
  moreover have "\<not> report_line_shape (strip ''3 problems'')"
    using C8_counted_lines [of "''3 problems''" "[]"] example_ignored
    by (auto simp: folder_errors_def)
  ultimately show ?thesis using example_counted example_ignored by simp
qed

text \<open>
  C10. A property declaration \<open>name: any;\<close> without the optional marker, \<open>name\<close> being
  one or more word characters and any run of whitespace (also none) standing between the
  colon and \<open>any\<close>, is rewritten by \<open>fix_no_explicit_any\<close> to \<open>name?: unknown;\<close>, with one
  fix counted: the replacement puts the optional marker \<open>?\<close> there although the source
  text had none. The second part says the same of the seventh substitution (the one for
  interface and type properties) inside a longer text: when its scan stands at the
  beginning of such a declaration, it emits \<open>name?: unknown;\<close>, counts one replacement
  and goes on behind the semicolon.
\<close>

theorem C10_required_property_becomes_optional:
  assumes "name \<noteq> []" and "list_all is_word name" and "list_all is_space w"
  shows "fix_no_explicit_any (name @ '':'' @ w @ ''any;'') = (name @ ''?: unknown;'', 1)
    \<and> subn_from (fst (replacements ! 6)) (snd (replacements ! 6)) p (name @ '':'' @ w @ ''any;'' @ rest)
        = (name @ ''?: unknown;''
             @ fst (subn_from (fst (replacements ! 6)) (snd (replacements ! 6)) (Some CHR '';'') rest),
           Suc (snd (subn_from (fst (replacements ! 6)) (snd (replacements ! 6)) (Some CHR '';'') rest)))"
proof
  let ?s = "name @ '':'' @ w @ ''any;''"
  have 1: "apply_replacements (take 6 replacements) (?s, 0) = (?s, 0)"
    by (rule apply_replacements_unchanged) (rule property_not_before [OF assms(2,3)])
  have 2: "apply_replacements (take 6 (drop 7 replacements)) (name @ ''?: unknown;'', 1)
      = (name @ ''?: unknown;'', 1)"
    using replaced_property_stays [OF assms(2)] by (intro apply_replacements_unchanged) simp
  have 3: "apply_replacements (drop 13 replacements) (name @ ''?: unknown;'', 1)
      = (name @ ''?: unknown;'', 1)"
    using replaced_property_stays [OF assms(2)] by (intro apply_replacements_unchanged) simp
  have "apply_replacements replacements (?s, 0) = (name @ ''?: unknown;'', 1)"
    by (subst replacements_split)
       (simp only: apply_replacements_append 1 apply_replacements_one property_subn [OF assms]
          fst_conv snd_conv add_0 2 3)
  then show "fix_no_explicit_any ?s = (name @ ''?: unknown;'', 1)"
    by (simp add: fix_no_explicit_any_def)
next
  show "subn_from (fst (replacements ! 6)) (snd (replacements ! 6)) p (name @ '':'' @ w @ ''any;'' @ rest)
        = (name @ ''?: unknown;''
             @ fst (subn_from (fst (replacements ! 6)) (snd (replacements ! 6)) (Some CHR '';'') rest),
           Suc (snd (subn_from (fst (replacements ! 6)) (snd (replacements ! 6)) (Some CHR '';'') rest)))"
    unfolding replacements_property fst_conv snd_conv
    by (rule property_subn_from [OF assms])
qed

theorem C10_required_property_becomes_optional_witness:
  "''name'' \<noteq> [] \<and> list_all is_word ''name'' \<and> list_all is_space '' ''
   \<and> fix_no_explicit_any ''name: any;'' = (''name?: unknown;'', 1)
   \<and> fix_no_explicit_any ''name:any;'' = (''name?: unknown;'', 1)"
  using C10_required_property_becomes_optional [of "''name''" "'' ''"]
    C10_required_property_becomes_optional [of "''name''" "[]"]
  by (simp add: is_word_def isalnum_def is_space_def)

end
